theory Spec2Isabelle
  imports Complex_Main "HOL-Library.Word" "HOL-Library.Log_Nat"
begin

section \<open>JavaScript values used by the download flow\<close>

subsection \<open>Strings\<close>

text \<open>
  A JavaScript string is a sequence of UTF-16 code units. \<open>utf16\<close> gives the code units
  of an ASCII literal of the source.
\<close>

type_synonym code_unit = nat
type_synonym jsstring = "code_unit list"

definition utf16 :: "string \<Rightarrow> jsstring" where
  "utf16 s = map of_char s"

text \<open>
  \<open>String.prototype.trim\<close> removes the code units of WhiteSpace and LineTerminator
  from both ends: TAB, LF, VT, FF, CR, SP, NBSP, the other space separators (category
  Zs), LS, PS and the byte order mark.
\<close>

definition isWhiteSpace :: "code_unit \<Rightarrow> bool" where
  "isWhiteSpace c =
     (c = 0x09 \<or> c = 0x0A \<or> c = 0x0B \<or> c = 0x0C \<or> c = 0x0D \<or> c = 0x20 \<or> c = 0xA0
      \<or> c = 0x1680 \<or> (0x2000 \<le> c \<and> c \<le> 0x200A) \<or> c = 0x2028 \<or> c = 0x2029
      \<or> c = 0x202F \<or> c = 0x205F \<or> c = 0x3000 \<or> c = 0xFEFF)"

definition trimStart :: "jsstring \<Rightarrow> jsstring" where
  "trimStart s = dropWhile isWhiteSpace s"

definition trimEnd :: "jsstring \<Rightarrow> jsstring" where
  "trimEnd s = rev (dropWhile isWhiteSpace (rev s))"

definition trim :: "jsstring \<Rightarrow> jsstring" where
  "trim s = trimEnd (trimStart s)"

subsection \<open>Numbers\<close>

text \<open>
  A number is a binary64 value: \<open>NaN\<close>, an infinity, \<open>-0\<close>, or a finite value, held as
  the rational it denotes (\<open>Fin 0\<close> is \<open>+0\<close>). The numbers of the download flow are a
  byte count, the parsed header, their quotient and its product with 100.
\<close>

datatype jsnum = NaN | PosInf | NegInf | NegZero | Fin rat

text \<open>
  Rounding to binary64, to the nearest value with ties to the even significand. For a
  positive rational \<open>a\<close> with \<open>2^e \<le> a < 2^(e+1)\<close> the values around \<open>a\<close> are the multiples
  of \<open>2^(e-52)\<close>; below the normal range (\<open>e < -1022\<close>) they are the multiples of
  \<open>2^(-1074)\<close>. A result of \<open>2^1024\<close> is an overflow.
\<close>

definition binaryExponent :: "rat \<Rightarrow> int" where
  "binaryExponent a =
     (if 1 \<le> a then int (floorlog 2 (nat \<lfloor>a\<rfloor>)) - 1
      else - int (floorlog 2 (nat (\<lceil>1 / a\<rceil> - 1))))"

definition roundHalfEven :: "rat \<Rightarrow> int" where
  "roundHalfEven m =
     (let f = \<lfloor>m\<rfloor>; d = m - of_int f
      in if d < 1 / 2 then f else if 1 / 2 < d then f + 1 else if even f then f else f + 1)"

definition ulp :: "rat \<Rightarrow> rat" where
  "ulp a = 2 powi (max (binaryExponent a) (- 1022) - 52)"

definition roundMagnitude :: "rat \<Rightarrow> rat" where
  "roundMagnitude a = of_int (roundHalfEven (a / ulp a)) * ulp a"

definition toDouble :: "rat \<Rightarrow> jsnum" where
  "toDouble q =
     (if q = 0 then Fin 0
      else (let r = roundMagnitude \<bar>q\<bar>
            in if 2 ^ 1024 \<le> r then (if 0 < q then PosInf else NegInf)
               else if r = 0 then (if 0 < q then Fin 0 else NegZero)
               else Fin (if 0 < q then r else - r)))"

text \<open>
  \<open>parseInt(string, 10)\<close>: leading white space is skipped, one sign is read, then the
  longest run of decimal digits. No digit gives \<open>NaN\<close>; a negative sign before the value
  zero gives \<open>-0\<close>; otherwise the result is the signed integer rounded to binary64.
  (Beyond twenty significant digits an engine may replace further digits by zeros before
  rounding; the model rounds the exact integer.)
\<close>

definition isDigit :: "code_unit \<Rightarrow> bool" where
  "isDigit c = (0x30 \<le> c \<and> c \<le> 0x39)"

definition digitsValue :: "jsstring \<Rightarrow> nat" where
  "digitsValue Z = foldl (\<lambda>acc c. 10 * acc + (c - 0x30)) 0 Z"

definition parseInt10 :: "jsstring \<Rightarrow> jsnum" where
  "parseInt10 string =
     (let S = trimStart string;
          negative = (S \<noteq> [] \<and> hd S = 0x2D);
          S' = (if S \<noteq> [] \<and> (hd S = 0x2B \<or> hd S = 0x2D) then tl S else S);
          Z = takeWhile isDigit S'
      in if Z = [] then NaN
         else if digitsValue Z = 0 then (if negative then NegZero else Fin 0)
         else toDouble (if negative then - of_nat (digitsValue Z) else of_nat (digitsValue Z)))"

text \<open>
  \<open>receivedLength / total\<close>. \<open>receivedLength\<close> is a sum of array lengths, a non-negative
  integer; the bytes are all held in memory, so it stays below \<open>2^53\<close>, where the
  additions are exact. The quotient is rounded.
\<close>

fun dividedBy :: "nat \<Rightarrow> jsnum \<Rightarrow> jsnum" where
  "dividedBy n NaN = NaN"
| "dividedBy n PosInf = Fin 0"
| "dividedBy n NegInf = NegZero"
| "dividedBy n NegZero = (if n = 0 then NaN else NegInf)"
| "dividedBy n (Fin t) =
     (if t = 0 then (if n = 0 then NaN else PosInf)
      else if n = 0 \<and> t < 0 then NegZero
      else toDouble (of_nat n / t))"

text \<open>\<open>x * 100\<close>, rounded.\<close>

fun times100 :: "jsnum \<Rightarrow> jsnum" where
  "times100 NaN = NaN"
| "times100 PosInf = PosInf"
| "times100 NegInf = NegInf"
| "times100 NegZero = NegZero"
| "times100 (Fin q) = toDouble (q * 100)"

text \<open>\<open>receivedLength !== total\<close>: \<open>NaN\<close> differs from every number, \<open>-0\<close> equals \<open>0\<close>.\<close>

fun strictNotEqual :: "nat \<Rightarrow> jsnum \<Rightarrow> bool" where
  "strictNotEqual n (Fin t) = (of_nat n \<noteq> t)"
| "strictNotEqual n NegZero = (n \<noteq> 0)"
| "strictNotEqual n _ = True"

text \<open>\<open>a <= b\<close> on numbers: false when either side is \<open>NaN\<close>.\<close>

fun lessEq :: "jsnum \<Rightarrow> jsnum \<Rightarrow> bool" where
  "lessEq NaN _ = False"
| "lessEq _ NaN = False"
| "lessEq NegInf _ = True"
| "lessEq _ PosInf = True"
| "lessEq PosInf _ = False"
| "lessEq _ NegInf = False"
| "lessEq NegZero NegZero = True"
| "lessEq NegZero (Fin b) = (0 \<le> b)"
| "lessEq (Fin a) NegZero = (a \<le> 0)"
| "lessEq (Fin a) (Fin b) = (a \<le> b)"

subsection \<open>Thrown values\<close>

text \<open>
  The messages of the \<open>Error\<close> objects of the source, by their template; \<open>Text\<close> is the
  message of an error raised outside this code (by \<open>fetch\<close>, a stream or the API client).
\<close>

datatype message =
    HttpErrorStatus nat
  | ResponseBodyIsNull
  | ContentLengthUnavailable
  | UnknownDownloadError
  | CouldNotDownload message
  | ApiReturnedEmptyResponse
  | InvalidJsonStructure
  | TypeErrorMessage
  | SyntaxErrorMessage
  | Text jsstring

text \<open>A thrown value is an \<open>Error\<close> object with a message, or something else.\<close>

datatype thrown = Error message | NonError

subsection \<open>The regular expression \<open>/[^a-z0-9_ -]/ig\<close>\<close>

text \<open>
  The class lists the ranges \<open>a-z\<close> and \<open>0-9\<close> and the single characters underscore,
  space and hyphen (the hyphen stands last, so it is a literal).
\<close>

definition classMembers :: "code_unit list" where
  "classMembers = [0x61 ..< 0x7B] @ [0x30 ..< 0x3A] @ [0x5F, 0x20, 0x2D]"

text \<open>
  With the flag \<open>i\<close> and without the flag \<open>u\<close>, a code unit is compared after
  Canonicalize: it is mapped through \<open>toUpperCase\<close>, except that a code unit of value
  128 or more is left as it is when its upper case has a value below 128. On ASCII,
  \<open>toUpperCase\<close> maps \<open>a\<close>..\<open>z\<close> to \<open>A\<close>..\<open>Z\<close> and nothing else. Beyond ASCII it is the
  Unicode table, which is the parameter \<open>U\<close> here (\<open>U ch\<close> is \<open>ch\<close> itself where the upper
  case of \<open>ch\<close> is not a single code unit).
\<close>

definition asciiUpper :: "code_unit \<Rightarrow> code_unit" where
  "asciiUpper ch = (if 0x61 \<le> ch \<and> ch \<le> 0x7A then ch - 0x20 else ch)"

definition canonicalize :: "(code_unit \<Rightarrow> code_unit) \<Rightarrow> code_unit \<Rightarrow> code_unit" where
  "canonicalize U ch =
     (if ch < 128 then asciiUpper ch
      else (let cu = U ch in if cu < 128 then ch else cu))"

text \<open>The positive class matches a code unit that canonicalizes like one of its members.\<close>

definition classMatches :: "(code_unit \<Rightarrow> code_unit) \<Rightarrow> code_unit \<Rightarrow> bool" where
  "classMatches U ch = list_ex (\<lambda>a. canonicalize U a = canonicalize U ch) classMembers"

text \<open>The negated class \<open>[^a-z0-9_ -]\<close> matches one code unit that the class does not.\<close>

definition disallowed :: "(code_unit \<Rightarrow> code_unit) \<Rightarrow> code_unit \<Rightarrow> bool" where
  "disallowed U ch = (\<not> classMatches U ch)"

text \<open>
  \<open>s.replace(re, r)\<close> for a global \<open>re\<close> that matches single code units: the string is
  scanned from the left, every match is replaced by \<open>r\<close>, everything else is copied.
\<close>

fun replaceAll :: "(code_unit \<Rightarrow> bool) \<Rightarrow> jsstring \<Rightarrow> jsstring \<Rightarrow> jsstring" where
  "replaceAll m r [] = []"
| "replaceAll m r (c # cs) = (if m c then r @ replaceAll m r cs else c # replaceAll m r cs)"

text \<open>\<open>a || b\<close> on strings: the empty string is the only falsy string.\<close>

definition orElse :: "jsstring \<Rightarrow> jsstring \<Rightarrow> jsstring" where
  "orElse a b = (if a = [] then b else a)"

section \<open>The file name of the download\<close>

text \<open>
  \<^verbatim>\<open>const safeFilename = filename.replace(/[^a-z0-9_ -]/ig, '').trim() || 'video';\<close>
\<close>

definition safeFilename :: "(code_unit \<Rightarrow> code_unit) \<Rightarrow> jsstring \<Rightarrow> jsstring" where
  "safeFilename U filename =
     orElse (trim (replaceAll (disallowed U) [] filename)) (utf16 ''video'')"

text \<open>
  The sanitizer as the specification words it: keep the characters of
  \<open>{A-Z, a-z, 0-9, underscore, space, hyphen}\<close>, remove the white space at both ends,
  fall back to \<open>video\<close>. Among the characters kept the only white space is the space,
  so the two ends are stripped of spaces, by recursions of their own.
\<close>

definition allowedChar :: "code_unit \<Rightarrow> bool" where
  "allowedChar c =
     ((0x41 \<le> c \<and> c \<le> 0x5A) \<or> (0x61 \<le> c \<and> c \<le> 0x7A) \<or> (0x30 \<le> c \<and> c \<le> 0x39)
      \<or> c = 0x5F \<or> c = 0x20 \<or> c = 0x2D)"

fun stripLeadingSpaces :: "jsstring \<Rightarrow> jsstring" where
  "stripLeadingSpaces [] = []"
| "stripLeadingSpaces (c # cs) = (if c = 0x20 then stripLeadingSpaces cs else c # cs)"

fun stripTrailingSpaces :: "jsstring \<Rightarrow> jsstring" where
  "stripTrailingSpaces [] = []"
| "stripTrailingSpaces (c # cs) =
     (let rest = stripTrailingSpaces cs in if rest = [] \<and> c = 0x20 then [] else c # rest)"

definition sanitize_spec :: "jsstring \<Rightarrow> jsstring" where
  "sanitize_spec s =
     (let r = stripTrailingSpaces (stripLeadingSpaces (filter allowedChar s))
      in if r = [] then utf16 ''video'' else r)"

section \<open>The streaming download\<close>

subsection \<open>What \<open>fetch\<close> gives\<close>

text \<open>
  A chunk is a \<open>Uint8Array\<close>. The body of a response is read through its reader: each
  \<open>await reader.read()\<close> resolves to a chunk or rejects, and after the last element of
  the list it resolves to \<open>{done: true}\<close>.
\<close>

type_synonym byte = "8 word"

datatype readResult = Chunk "byte list" | ReadError thrown

text \<open>
  Of a response the code reads \<open>ok\<close>, \<open>status\<close>, \<open>body\<close> (which may be \<open>null\<close>) and
  \<open>headers.get('content-length')\<close> (\<open>null\<close> when the header is absent).
\<close>

record response =
  ok :: bool
  status :: nat
  body :: "readResult list option"
  contentLength :: "jsstring option"

datatype fetchResult = Rejected thrown | Resolved response

subsection \<open>The read loop\<close>

text \<open>
  The variables of the loop, with the calls of \<open>setDownloadProgress\<close> and of
  \<open>reader.read()\<close> made so far.
\<close>

record loopState =
  chunks :: "byte list list"
  receivedLength :: nat
  progressCalls :: "jsnum list"
  reads :: nat

definition initialState :: loopState where
  "initialState = \<lparr>chunks = [], receivedLength = 0, progressCalls = [], reads = 0\<rparr>"

text \<open>
  \<^verbatim>\<open>chunks.push(value); receivedLength += value.length;\<close>
  \<^verbatim>\<open>const progress = (receivedLength / total) * 100; setDownloadProgress(progress);\<close>
\<close>

definition appendChunk :: "jsnum \<Rightarrow> loopState \<Rightarrow> byte list \<Rightarrow> loopState" where
  "appendChunk totalBytes s v =
     (let received = receivedLength s + length v;
          progress = times100 (dividedBy received totalBytes)
      in s\<lparr>chunks := chunks s @ [v], receivedLength := received,
            progressCalls := progressCalls s @ [progress]\<rparr>)"

text \<open>
  \<^verbatim>\<open>while (true) { const { done, value } = await reader.read(); if (done) break; ... }\<close>
  The loop ends at \<open>done\<close>, or with the value a read rejects with; the state it has
  reached is returned in both cases.
\<close>

fun readLoop :: "jsnum \<Rightarrow> loopState \<Rightarrow> readResult list \<Rightarrow> loopState \<times> thrown option" where
  "readLoop totalBytes s [] = (s\<lparr>reads := Suc (reads s)\<rparr>, None)"
| "readLoop totalBytes s (ReadError e # rest) = (s\<lparr>reads := Suc (reads s)\<rparr>, Some e)"
| "readLoop totalBytes s (Chunk v # rest) =
     readLoop totalBytes (appendChunk totalBytes (s\<lparr>reads := Suc (reads s)\<rparr>) v) rest"

text \<open>The states of the loop after each chunk it has appended, in order.\<close>

fun loopStates :: "jsnum \<Rightarrow> loopState \<Rightarrow> readResult list \<Rightarrow> loopState list" where
  "loopStates totalBytes s [] = []"
| "loopStates totalBytes s (ReadError e # rest) = []"
| "loopStates totalBytes s (Chunk v # rest) =
     (let s' = appendChunk totalBytes (s\<lparr>reads := Suc (reads s)\<rparr>) v
      in s' # loopStates totalBytes s' rest)"

text \<open>\<open>ByteAccumulator.totalLength()\<close>: the bytes held by the chunk sequence.\<close>

definition totalLength :: "byte list list \<Rightarrow> nat" where
  "totalLength cs = sum_list (map length cs)"

subsection \<open>\<open>downloadFileWithProgress\<close>\<close>

text \<open>
  The \<open>Blob\<close> handed to the browser through the link: its bytes (the chunks, one after
  the other), its type and the \<open>download\<close> attribute of the link. Building the \<open>Blob\<close>
  and clicking the link are taken to succeed.
\<close>

record artifact =
  bytes :: "byte list"
  mimeType :: jsstring
  download :: jsstring

text \<open>
  What a run has done: the value it threw (if any), the calls of \<open>setDownloadProgress\<close>
  (\<open>None\<close> is \<open>null\<close>), the number of \<open>reader.read()\<close> calls, the length-mismatch warnings
  (received, total) written with \<open>console.warn\<close>, and the files handed to the browser.
\<close>

record outcome =
  failure :: "thrown option"
  progress :: "jsnum option list"
  readCalls :: nat
  warnings :: "(nat \<times> jsnum) list"
  downloads :: "artifact list"

definition failed :: "thrown \<Rightarrow> outcome" where
  "failed e = \<lparr>failure = Some e, progress = [], readCalls = 0, warnings = [], downloads = []\<rparr>"

text \<open>The \<open>try\<close> block, from the result of \<open>await fetch(url)\<close> on.\<close>

definition tryBlock :: "(code_unit \<Rightarrow> code_unit) \<Rightarrow> fetchResult \<Rightarrow> jsstring \<Rightarrow> outcome" where
  "tryBlock U fetched filename =
     (case fetched of
        Rejected e \<Rightarrow> failed e
      | Resolved r \<Rightarrow>
          if \<not> ok r then failed (Error (HttpErrorStatus (status r)))
          else (case body r of
            None \<Rightarrow> failed (Error ResponseBodyIsNull)
          | Some stream \<Rightarrow>
              (case contentLength r of
                None \<Rightarrow> failed (Error ContentLengthUnavailable)
              | Some header \<Rightarrow>
                  if header = [] then failed (Error ContentLengthUnavailable)
                  else
                    (let totalBytes = parseInt10 header;
                         (s, e) = readLoop totalBytes initialState stream
                     in case e of
                          Some t \<Rightarrow>
                            \<lparr>failure = Some t, progress = map Some (progressCalls s),
                             readCalls = reads s, warnings = [], downloads = []\<rparr>
                        | None \<Rightarrow>
                            \<lparr>failure = None, progress = map Some (progressCalls s),
                             readCalls = reads s,
                             warnings =
                               (if strictNotEqual (receivedLength s) totalBytes
                                then [(receivedLength s, totalBytes)] else []),
                             downloads =
                               [\<lparr>bytes = concat (chunks s), mimeType = utf16 ''video/mp4'',
                                 download = safeFilename U filename @ utf16 ''.mp4''\<rparr>]\<rparr>))))"

text \<open>
  \<^verbatim>\<open>catch (e) { const errorMessage = e instanceof Error ? e.message : '...';\<close>
  \<^verbatim>\<open>throw new Error(`Could not download the video file. ${errorMessage}`); }\<close>
\<close>

definition rethrown :: "thrown \<Rightarrow> thrown" where
  "rethrown e =
     Error (CouldNotDownload (case e of Error m \<Rightarrow> m | NonError \<Rightarrow> UnknownDownloadError))"

text \<open>
  The whole function: \<open>setDownloadProgress(0)\<close>, the \<open>try\<close> block, the \<open>catch\<close> clause and
  \<open>setDownloadProgress(null)\<close> of the \<open>finally\<close> clause. \<open>fetch\<close> is the network and
  \<open>U\<close> the upper-case table the regular expression consults.
\<close>

definition downloadFileWithProgress ::
  "(code_unit \<Rightarrow> code_unit) \<Rightarrow> (jsstring \<Rightarrow> fetchResult) \<Rightarrow> jsstring \<Rightarrow> jsstring \<Rightarrow> outcome" where
  "downloadFileWithProgress U fetch url filename =
     (let out = tryBlock U (fetch url) filename
      in out\<lparr>failure := map_option rethrown (failure out),
              progress := Some (Fin 0) # progress out @ [None]\<rparr>)"

text \<open>
  The numbers passed to \<open>setDownloadProgress\<close>, in order: the \<open>0\<close> set before the request,
  then one percentage for each chunk read.
\<close>

definition snapshots :: "outcome \<Rightarrow> jsnum list" where
  "snapshots out = concat (map (\<lambda>p. case p of None \<Rightarrow> [] | Some x \<Rightarrow> [x]) (progress out))"

section \<open>The content description: \<open>fetchVideoInfo\<close>\<close>

text \<open>
  The values \<open>JSON.parse\<close> returns. The property list of an object holds each key once.
\<close>

datatype json =
    JNull
  | JBool bool
  | JNumber rat
  | JString jsstring
  | JArray "json list"
  | JObject "(jsstring \<times> json) list"

text \<open>
  \<open>value.key\<close> for a value that is not \<open>null\<close> (\<open>None\<close> is \<open>undefined\<close>): an object has
  the properties of its list; strings, numbers, booleans and arrays have no property
  \<open>title\<close> or \<open>summary\<close>.
\<close>

fun getProperty :: "json \<Rightarrow> jsstring \<Rightarrow> json option" where
  "getProperty (JObject kvs) key = map_of kvs key"
| "getProperty _ key = None"

text \<open>Truthiness, as \<open>&&\<close> and \<open>if\<close> test it.\<close>

fun truthy :: "json option \<Rightarrow> bool" where
  "truthy None = False"
| "truthy (Some JNull) = False"
| "truthy (Some (JBool b)) = b"
| "truthy (Some (JNumber n)) = (n \<noteq> 0)"
| "truthy (Some (JString s)) = (s \<noteq> [])"
| "truthy (Some (JArray xs)) = True"
| "truthy (Some (JObject kvs)) = True"

text \<open>
  \<open>await ai.models.generateContent(...)\<close> rejects, or resolves to a response whose
  \<open>text\<close> is a string or \<open>undefined\<close>.
\<close>

datatype apiResult = ApiRejected thrown | ApiResolved "jsstring option"

definition prompt :: "jsstring \<Rightarrow> jsstring" where
  "prompt url =
     utf16 ''Based on this YouTube URL, what could the video plausibly be about? Generate a creative title and a short, engaging summary for it. URL: '' @ url"

text \<open>
  The \<open>try\<close> block. \<open>generateContent\<close> is the API client and \<open>parse\<close> is \<open>JSON.parse\<close>
  (\<open>None\<close> where it throws a \<open>SyntaxError\<close>); \<open>.trim()\<close> on \<open>undefined\<close> throws a
  \<open>TypeError\<close>.
\<close>

definition fetchVideoInfoTry ::
  "(jsstring \<Rightarrow> apiResult) \<Rightarrow> (jsstring \<Rightarrow> json option) \<Rightarrow> jsstring \<Rightarrow> thrown + json" where
  "fetchVideoInfoTry generateContent parse url =
     (case generateContent (prompt url) of
        ApiRejected e \<Rightarrow> Inl e
      | ApiResolved None \<Rightarrow> Inl (Error TypeErrorMessage)
      | ApiResolved (Some text) \<Rightarrow>
          (let jsonText = trim text
           in if jsonText = [] then Inl (Error ApiReturnedEmptyResponse)
              else (case parse jsonText of
                None \<Rightarrow> Inl (Error SyntaxErrorMessage)
              | Some parsedResponse \<Rightarrow>
                  if truthy (Some parsedResponse)
                     \<and> truthy (getProperty parsedResponse (utf16 ''title''))
                     \<and> truthy (getProperty parsedResponse (utf16 ''summary''))
                  then Inr parsedResponse
                  else Inl (Error InvalidJsonStructure))))"

definition fallback :: json where
  "fallback = JObject
     [(utf16 ''title'', JString (utf16 ''AI Could Not Determine Title'')),
      (utf16 ''summary'', JString (utf16
        ''There was an issue generating the video summary. Please check the URL or try again later.''))]"

text \<open>
  The function with its \<open>catch\<close> clause: \<open>Inr\<close> is the value the promise resolves to,
  \<open>Inl\<close> a value it rejects with.
\<close>

definition fetchVideoInfo ::
  "(jsstring \<Rightarrow> apiResult) \<Rightarrow> (jsstring \<Rightarrow> json option) \<Rightarrow> jsstring \<Rightarrow> thrown + json" where
  "fetchVideoInfo generateContent parse url =
     (case fetchVideoInfoTry generateContent parse url of
        Inl error \<Rightarrow> Inr fallback
      | Inr parsedResponse \<Rightarrow> Inr parsedResponse)"

section \<open>Properties of the rounding\<close>

text \<open>The exponent brackets the value, and only one exponent does.\<close>

lemma floorlog_two_bounds:
  assumes "0 < n"
  shows "1 \<le> floorlog 2 n" "(2::rat) ^ (floorlog 2 n - 1) \<le> of_nat n" "of_nat n < (2::rat) ^ floorlog 2 n"
proof -
  have b: "2 ^ (floorlog 2 n - 1) \<le> n \<and> n < 2 ^ floorlog 2 n"
    using floorlog_bounds [of n 2] assms by simp
  show "1 \<le> floorlog 2 n"
  proof (rule ccontr)
    assume "\<not> 1 \<le> floorlog 2 n"
    then have "floorlog 2 n = 0" by simp
    with b assms show False by simp
  qed
  from b have "of_nat (2 ^ (floorlog 2 n - 1)) \<le> (of_nat n :: rat)"
    by (simp only: of_nat_le_iff)
  then show "(2::rat) ^ (floorlog 2 n - 1) \<le> of_nat n" by simp
  from b have "(of_nat n :: rat) < of_nat (2 ^ floorlog 2 n)"
    by (simp only: of_nat_less_iff)
  then show "of_nat n < (2::rat) ^ floorlog 2 n" by simp
qed

lemma binaryExponent_bounds:
  assumes "0 < a"
  shows "2 powi binaryExponent a \<le> a \<and> a < 2 powi (binaryExponent a + 1)"
proof (cases "1 \<le> a")
  case True
  define n where "n = nat \<lfloor>a\<rfloor>"
  define k where "k = floorlog 2 n"
  have n: "0 < n" "of_nat n \<le> a" "a < of_nat n + 1"
    using True by (auto simp: n_def) linarith+
  note fb = floorlog_two_bounds [OF n(1), folded k_def]
  have e: "binaryExponent a = int (k - 1)"
    using True fb(1) by (simp add: binaryExponent_def n_def k_def)
  have "of_nat n + 1 \<le> (2::rat) ^ k"
  proof -
    have "n < 2 ^ k" using fb(3) by (metis of_nat_less_iff of_nat_numeral of_nat_power)
    then have "n + 1 \<le> 2 ^ k" by simp
    then have "(of_nat (n + 1) :: rat) \<le> of_nat (2 ^ k)" by (simp only: of_nat_le_iff)
    then show ?thesis by simp
  qed
  moreover have "int (k - 1) + 1 = int k" using fb(1) by simp
  then have "(2::rat) powi (int (k - 1) + 1) = 2 ^ k" by (simp only: power_int_of_nat)
  moreover have "(2::rat) powi int (k - 1) = 2 ^ (k - 1)" by (simp only: power_int_of_nat)
  ultimately have "2 powi int (k - 1) \<le> a \<and> a < 2 powi (int (k - 1) + 1)"
    using fb(2) n(2,3) by linarith
  then show ?thesis by (simp only: e)
next
  case False
  define c where "c = \<lceil>1 / a\<rceil>"
  define n where "n = nat (c - 1)"
  define k where "k = floorlog 2 n"
  have ia: "1 < 1 / a" using False assms by simp
  have c: "1 / a \<le> of_int c" "of_int c - 1 < 1 / a"
    by (simp_all add: c_def) linarith
  have "2 \<le> c" using ia c(1) by linarith
  then have n: "0 < n" "of_int c = (of_nat n :: rat) + 1"
    by (simp_all add: n_def)
  note fb = floorlog_two_bounds [OF n(1), folded k_def]
  have e: "binaryExponent a = - int k"
    using False by (simp add: binaryExponent_def n_def k_def c_def)
  have "of_nat n + 1 \<le> (2::rat) ^ k"
  proof -
    have "n < 2 ^ k" using fb(3) by (metis of_nat_less_iff of_nat_numeral of_nat_power)
    then have "n + 1 \<le> 2 ^ k" by simp
    then have "(of_nat (n + 1) :: rat) \<le> of_nat (2 ^ k)" by (simp only: of_nat_le_iff)
    then show ?thesis by simp
  qed
  then have up: "1 / a \<le> 2 ^ k" using c(1) n(2) by linarith
  have lo: "(2::rat) ^ (k - 1) < 1 / a" using fb(2) c(2) n(2) by linarith
  have 1: "2 powi (- int k) \<le> a"
  proof -
    have "1 \<le> a * 2 ^ k" using up assms by (simp add: field_simps)
    then show ?thesis by (simp add: power_int_minus field_simps)
  qed
  have 2: "a < 2 powi (- int k + 1)"
  proof -
    have eq: "- int k + 1 = - int (k - 1)" using fb(1) by simp
    have "a * 2 ^ (k - 1) < 1" using lo assms by (simp add: field_simps)
    then have "a < 1 / 2 ^ (k - 1)" by (simp add: field_simps)
    also have "\<dots> = 2 powi (- int (k - 1))"
      by (simp only: power_int_minus_divide power_int_of_nat)
    finally show ?thesis by (simp only: eq)
  qed
  show ?thesis using 1 2 by (simp add: e)
qed

lemma binaryExponent_unique:
  assumes "2 powi e \<le> a" "a < 2 powi (e + 1)"
  shows "binaryExponent a = e"
proof -
  have pos: "0 < a" using assms(1) zero_less_power_int [of "2::rat" e] by linarith
  note b = binaryExponent_bounds [OF pos]
  have "binaryExponent a < e + 1"
  proof (rule ccontr)
    assume "\<not> binaryExponent a < e + 1"
    then have "(2::rat) powi (e + 1) \<le> 2 powi binaryExponent a"
      by (intro power_int_increasing) auto
    with b assms show False by linarith
  qed
  moreover have "e < binaryExponent a + 1"
  proof (rule ccontr)
    assume "\<not> e < binaryExponent a + 1"
    then have "(2::rat) powi (binaryExponent a + 1) \<le> 2 powi e"
      by (intro power_int_increasing) auto
    with b assms show False by linarith
  qed
  ultimately show ?thesis by simp
qed

lemma binaryExponent_mono:
  assumes "0 < a" "a \<le> b"
  shows "binaryExponent a \<le> binaryExponent b"
proof (rule ccontr)
  assume "\<not> binaryExponent a \<le> binaryExponent b"
  then have "(2::rat) powi (binaryExponent b + 1) \<le> 2 powi binaryExponent a"
    by (intro power_int_increasing) auto
  moreover have "0 < b" using assms by simp
  ultimately show False
    using binaryExponent_bounds [OF assms(1)] binaryExponent_bounds [of b] assms(2) by linarith
qed

text \<open>Rounding to an integer is exact on integers and monotone.\<close>

lemma roundHalfEven_of_int [simp]: "roundHalfEven (of_int n) = n"
  by (simp add: roundHalfEven_def)

lemma roundHalfEven_bounds: "\<lfloor>m\<rfloor> \<le> roundHalfEven m \<and> roundHalfEven m \<le> \<lfloor>m\<rfloor> + 1"
  by (simp add: roundHalfEven_def Let_def)

lemma roundHalfEven_mono:
  assumes "m \<le> m'"
  shows "roundHalfEven m \<le> roundHalfEven m'"
proof (cases "\<lfloor>m\<rfloor> = \<lfloor>m'\<rfloor>")
  case True
  then show ?thesis using assms by (auto simp: roundHalfEven_def Let_def)
next
  case False
  then have "\<lfloor>m\<rfloor> + 1 \<le> \<lfloor>m'\<rfloor>" using floor_mono [OF assms] by simp
  then show ?thesis
    using roundHalfEven_bounds [of m] roundHalfEven_bounds [of m'] by linarith
qed

text \<open>
  A rounded value stays within the powers of two around it, so rounding is monotone
  across exponents as well as within one.
\<close>

lemma round_scaled_upper:
  assumes "a \<le> 2 powi (e + 1)"
  shows "of_int (roundHalfEven (a / 2 powi (e - 52))) * 2 powi (e - 52) \<le> (2::rat) powi (e + 1)"
proof -
  let ?u = "(2::rat) powi (e - 52)"
  have u: "0 < ?u" by simp
  have "(2::rat) powi (53 + (e - 52)) = 2 powi 53 * ?u"
    by (rule power_int_add) simp
  moreover have "53 + (e - 52) = e + 1" by simp
  ultimately have split: "(2::rat) powi (e + 1) = 2 ^ 53 * ?u"
    by (simp del: power_int_add_numeral power_int_add_numeral2)
  then have "a / ?u \<le> of_int (2 ^ 53)"
    using assms u by (simp add: field_simps)
  then have "roundHalfEven (a / ?u) \<le> 2 ^ 53"
    using roundHalfEven_mono [of "a / ?u" "of_int (2 ^ 53)"] by (simp only: roundHalfEven_of_int)
  then have "(of_int (roundHalfEven (a / ?u)) :: rat) \<le> of_int (2 ^ 53)"
    by (simp only: of_int_le_iff)
  then have "of_int (roundHalfEven (a / ?u)) * ?u \<le> of_int (2 ^ 53) * ?u"
    using u by (intro mult_right_mono) auto
  then show ?thesis by (simp add: split)
qed

lemma round_scaled_lower:
  assumes "2 powi e \<le> a"
  shows "(2::rat) powi e \<le> of_int (roundHalfEven (a / 2 powi (e - 52))) * 2 powi (e - 52)"
proof -
  let ?u = "(2::rat) powi (e - 52)"
  have u: "0 < ?u" by simp
  have "(2::rat) powi (52 + (e - 52)) = 2 powi 52 * ?u"
    by (rule power_int_add) simp
  then have split: "(2::rat) powi e = 2 ^ 52 * ?u"
    by simp
  then have "of_int (2 ^ 52) \<le> a / ?u"
    using assms u by (simp add: field_simps)
  then have "2 ^ 52 \<le> roundHalfEven (a / ?u)"
    using roundHalfEven_mono [of "of_int (2 ^ 52)" "a / ?u"] by (simp only: roundHalfEven_of_int)
  then have "(of_int (2 ^ 52) :: rat) \<le> of_int (roundHalfEven (a / ?u))"
    by (simp only: of_int_le_iff)
  then have "of_int (2 ^ 52) * ?u \<le> of_int (roundHalfEven (a / ?u)) * ?u"
    using u by (intro mult_right_mono) auto
  then show ?thesis by (simp add: split)
qed

lemma roundMagnitude_mono:
  assumes "0 < a" "a \<le> b"
  shows "roundMagnitude a \<le> roundMagnitude b"
proof -
  define ea where "ea = max (binaryExponent a) (- 1022)"
  define eb where "eb = max (binaryExponent b) (- 1022)"
  have b: "0 < b" using assms by simp
  have le: "ea \<le> eb"
    using binaryExponent_mono [OF assms] by (simp add: ea_def eb_def)
  have ua: "ulp a = 2 powi (ea - 52)" and ub: "ulp b = 2 powi (eb - 52)"
    by (simp_all add: ulp_def ea_def eb_def)
  show ?thesis
  proof (cases "ea = eb")
    case True
    have "a / ulp b \<le> b / ulp b"
      using assms(2) by (simp add: ub divide_right_mono)
    then have "roundHalfEven (a / ulp b) \<le> roundHalfEven (b / ulp b)"
      by (rule roundHalfEven_mono)
    then have "(of_int (roundHalfEven (a / ulp b)) :: rat) \<le> of_int (roundHalfEven (b / ulp b))"
      by (simp only: of_int_le_iff)
    then have "of_int (roundHalfEven (a / ulp b)) * ulp b \<le> of_int (roundHalfEven (b / ulp b)) * ulp b"
      by (intro mult_right_mono) (auto simp: ub)
    moreover have "ulp a = ulp b" using True by (simp add: ua ub)
    ultimately show ?thesis by (simp add: roundMagnitude_def)
  next
    case False
    then have lt: "ea + 1 \<le> eb" using le by simp
    then have eb: "eb = binaryExponent b" by (auto simp: eb_def ea_def)
    have "a < 2 powi (binaryExponent a + 1)"
      using binaryExponent_bounds [OF assms(1)] by simp
    also have "\<dots> \<le> 2 powi (ea + 1)"
      by (intro power_int_increasing) (auto simp: ea_def)
    finally have "roundMagnitude a \<le> 2 powi (ea + 1)"
      using round_scaled_upper [of a ea] by (simp add: roundMagnitude_def ua)
    also have "\<dots> \<le> 2 powi eb"
      using lt by (intro power_int_increasing) auto
    also have "\<dots> \<le> roundMagnitude b"
      using round_scaled_lower [of eb b] binaryExponent_bounds [OF b]
      by (simp add: roundMagnitude_def ub eb [symmetric])
    finally show ?thesis .
  qed
qed

lemma roundMagnitude_nonneg: "0 < a \<Longrightarrow> 0 \<le> roundMagnitude a"
proof -
  assume a: "0 < a"
  have "0 \<le> a / ulp a" using a by (simp add: ulp_def)
  then have "roundHalfEven 0 \<le> roundHalfEven (a / ulp a)" by (rule roundHalfEven_mono)
  then have "0 \<le> roundHalfEven (a / ulp a)" using roundHalfEven_of_int [of 0] by simp
  then show ?thesis by (simp add: roundMagnitude_def ulp_def)
qed

lemma roundMagnitude_eval:
  assumes "2 powi e \<le> a" "a < 2 powi (e + 1)" "- 1022 \<le> e"
  shows "roundMagnitude a = of_int (roundHalfEven (a / 2 powi (e - 52))) * 2 powi (e - 52)"
  using binaryExponent_unique [OF assms(1,2)] assms(3)
  by (simp add: roundMagnitude_def ulp_def)

lemma toDouble_nonneg_cases:
  assumes "0 \<le> a"
  shows "toDouble a = PosInf \<or> (\<exists>x\<ge>0. toDouble a = Fin x)"
  using assms roundMagnitude_nonneg [of a]
  by (auto simp: toDouble_def Let_def)

lemma toDouble_mono:
  assumes "0 \<le> a" "a \<le> b"
  shows "lessEq (toDouble a) (toDouble b)"
proof (cases "a = 0")
  case True
  then have "toDouble a = Fin 0" by (simp add: toDouble_def)
  then show ?thesis
    using toDouble_nonneg_cases [of b] assms by auto
next
  case False
  then have a: "0 < a" and b: "0 < b" using assms by auto
  have "roundMagnitude a \<le> roundMagnitude b" by (rule roundMagnitude_mono [OF a assms(2)])
  then show ?thesis
    using a b roundMagnitude_nonneg [OF a] roundMagnitude_nonneg [OF b]
    by (auto simp: toDouble_def Let_def)
qed

text \<open>Evaluating a rounding from the exponent of the value; small integers are exact.\<close>

lemma toDouble_eval:
  assumes "2 powi e \<le> a" "a < 2 powi (e + 1)" "- 1022 \<le> e" "e \<le> 1022"
    and "roundHalfEven (a / 2 powi (e - 52)) = n"
  shows "toDouble a = Fin (of_int n * 2 powi (e - 52))"
proof -
  have pos: "0 < a" using assms(1) zero_less_power_int [of "2::rat" e] by linarith
  have r: "roundMagnitude a = of_int n * 2 powi (e - 52)"
    using roundMagnitude_eval [OF assms(1-3)] assms(5) by simp
  have "roundMagnitude a \<le> 2 powi (e + 1)"
    using round_scaled_upper [of a e] assms(2) roundMagnitude_eval [OF assms(1-3)] by simp
  also have "\<dots> \<le> 2 powi 1023"
    using assms(4) by (intro power_int_increasing) auto
  also have "\<dots> < 2 ^ 1024" by simp
  finally have less: "roundMagnitude a < 2 ^ 1024" .
  have "0 < (2::rat) powi e" by simp
  also have "\<dots> \<le> roundMagnitude a"
    using round_scaled_lower [OF assms(1)] roundMagnitude_eval [OF assms(1-3)] by simp
  finally have "0 < roundMagnitude a" .
  then show ?thesis
    using pos less r by (simp add: toDouble_def Let_def del: power_int_numeral)
qed

lemma toDouble_of_nat:
  assumes "0 < n" "n < 2 ^ 53"
  shows "toDouble (of_nat n) = Fin (of_nat n)"
proof -
  define a :: rat where "a = of_nat n"
  define e where "e = binaryExponent a"
  have "(of_nat n :: rat) < of_nat (2 ^ 53)"
    using assms(2) by (simp only: of_nat_less_iff)
  then have a: "1 \<le> a" "a < 2 ^ 53"
    using assms(1) by (simp_all add: a_def)
  then have pos: "0 < a" by simp
  note b = binaryExponent_bounds [OF pos, folded e_def]
  have "binaryExponent 1 \<le> e"
    unfolding e_def by (rule binaryExponent_mono) (use a in auto)
  moreover have "binaryExponent 1 = 0"
    by (rule binaryExponent_unique) simp_all
  ultimately have e0: "0 \<le> e" by simp
  have e52: "e \<le> 52"
  proof (rule ccontr)
    assume "\<not> e \<le> 52"
    then have "(2::rat) powi 53 \<le> 2 powi e" by (intro power_int_increasing) auto
    with b a(2) show False by simp
  qed
  define k where "k = nat (52 - e)"
  have u: "(2::rat) powi (e - 52) = 1 / 2 ^ k"
  proof -
    have "e - 52 = - int k" using e52 by (simp add: k_def)
    then show ?thesis by (simp only: power_int_minus_divide power_int_of_nat)
  qed
  have "a / 2 powi (e - 52) = of_int (int n * 2 ^ k)"
    by (simp add: u a_def)
  then have "roundHalfEven (a / 2 powi (e - 52)) = int n * 2 ^ k"
    by (simp only: roundHalfEven_of_int)
  then have "toDouble a = Fin (of_int (int n * 2 ^ k) * 2 powi (e - 52))"
    using b e0 e52 by (intro toDouble_eval) auto
  then show ?thesis by (simp add: u a_def)
qed

lemma roundHalfEven_nearest:
  assumes "\<bar>m - of_int n\<bar> < 1 / 2"
  shows "roundHalfEven m = n"
proof (cases "of_int n \<le> m")
  case True
  then have "\<lfloor>m\<rfloor> = n" using assms by (intro floor_unique) auto
  then show ?thesis using assms True by (simp add: roundHalfEven_def Let_def)
next
  case False
  then have "\<lfloor>m\<rfloor> = n - 1" using assms by (intro floor_unique) auto
  then show ?thesis using assms False by (simp add: roundHalfEven_def Let_def)
qed

lemma toDouble_nearest:
  assumes "2 powi e \<le> a" "a < 2 powi (e + 1)" "- 1022 \<le> e" "e \<le> 1022"
    and "\<bar>a / 2 powi (e - 52) - of_int n\<bar> < 1 / 2"
  shows "toDouble a = Fin (of_int n * 2 powi (e - 52))"
  using assms(1-4) roundHalfEven_nearest [OF assms(5)] by (rule toDouble_eval)

lemma toDouble_numeral:
  "(numeral k :: nat) < 2 ^ 53 \<Longrightarrow> toDouble (numeral k) = Fin (numeral k)"
  using toDouble_of_nat [of "numeral k"] by simp

lemma toDouble_one: "toDouble 1 = Fin 1"
  using toDouble_of_nat [of 1] by simp

lemma toDouble_positive:
  assumes "0 < x"
  shows "toDouble x = (if 2 ^ 1024 \<le> roundMagnitude x then PosInf else Fin (roundMagnitude x))"
  using assms by (simp add: toDouble_def Let_def del: power_numeral)

lemma roundHalfEven_above_half:
  assumes "of_int k + 1 / 2 < m"
  shows "k + 1 \<le> roundHalfEven m"
proof (cases "k + 1 \<le> \<lfloor>m\<rfloor>")
  case True
  then show ?thesis using roundHalfEven_bounds [of m] by linarith
next
  case False
  have "k \<le> \<lfloor>m\<rfloor>" using assms by (simp add: le_floor_iff)
  with False have "\<lfloor>m\<rfloor> = k" by simp
  then show ?thesis using assms by (simp add: roundHalfEven_def Let_def)
qed

text \<open>Above the midpoint of \<open>1\<close> and its successor, a quotient rounds to more than \<open>1\<close>.\<close>

lemma roundMagnitude_above_one:
  assumes "1 + 1 / 2 ^ 53 < x"
  shows "1 + 1 / 2 ^ 52 \<le> roundMagnitude x"
proof (cases "x < 2")
  case True
  have "roundMagnitude x = of_int (roundHalfEven (x / 2 powi (0 - 52))) * 2 powi (0 - 52)"
    using assms True by (intro roundMagnitude_eval) auto
  then have r: "roundMagnitude x = of_int (roundHalfEven (x * 2 ^ 52)) / 2 ^ 52"
    by (simp add: power_int_minus field_simps)
  have "of_int (2 ^ 52) + 1 / 2 < x * 2 ^ 52"
    using assms by (simp add: field_simps)
  then have "2 ^ 52 + 1 \<le> roundHalfEven (x * 2 ^ 52)"
    by (rule roundHalfEven_above_half)
  then have "(of_int (2 ^ 52 + 1) :: rat) \<le> of_int (roundHalfEven (x * 2 ^ 52))"
    by (simp only: of_int_le_iff)
  then show ?thesis
    by (simp add: r field_simps)
next
  case False
  have "roundMagnitude 2 = of_int (roundHalfEven (2 / 2 powi (1 - 52))) * 2 powi (1 - 52)"
    by (intro roundMagnitude_eval) auto
  moreover have "(2::rat) / 2 powi (1 - 52) = of_int (2 ^ 52)"
    by (simp add: power_int_minus)
  ultimately have "roundMagnitude 2 = 2"
    by (simp only: roundHalfEven_of_int) (simp add: power_int_minus)
  moreover have "roundMagnitude 2 \<le> roundMagnitude x"
    using False by (intro roundMagnitude_mono) auto
  ultimately show ?thesis by simp
qed

text \<open>One hundred times a value above \<open>1\<close> rounds to more than \<open>100\<close>.\<close>

lemma roundMagnitude_times100:
  assumes "1 + 1 / 2 ^ 52 \<le> y"
  shows "100 + 1 / 2 ^ 45 \<le> roundMagnitude (y * 100)"
proof -
  let ?a = "(1 + 1 / 2 ^ 52) * 100 :: rat"
  have "roundMagnitude ?a = of_int (roundHalfEven (?a / 2 powi (6 - 52))) * 2 powi (6 - 52)"
    by (intro roundMagnitude_eval) auto
  moreover have "roundHalfEven (?a / 2 powi (6 - 52)) = 100 * 2 ^ 46 + 2"
    by (rule roundHalfEven_nearest) (simp add: power_int_minus)
  ultimately have "roundMagnitude ?a = 100 + 1 / 2 ^ 45"
    by (simp add: power_int_minus)
  moreover have "roundMagnitude ?a \<le> roundMagnitude (y * 100)"
    using assms by (intro roundMagnitude_mono) auto
  ultimately show ?thesis by simp
qed

lemma roundHalfEven_error: "\<bar>of_int (roundHalfEven m) - m\<bar> \<le> 1 / 2"
proof -
  have "of_int \<lfloor>m\<rfloor> \<le> m" "m < of_int \<lfloor>m\<rfloor> + 1" by linarith+
  then show ?thesis
    by (auto simp: roundHalfEven_def Let_def abs_le_iff)
qed

text \<open>In the normal range a rounding moves a value by at most \<open>2^(-53)\<close> of itself.\<close>

lemma roundMagnitude_error:
  assumes "2 powi (- 1022) \<le> a"
  shows "\<bar>roundMagnitude a - a\<bar> \<le> a / 2 ^ 53"
proof -
  have pos: "0 < a"
    using assms zero_less_power_int [of "2::rat" "- 1022"] by linarith
  define e where "e = binaryExponent a"
  have "binaryExponent (2 powi (- 1022)) = - 1022"
    by (rule binaryExponent_unique) (simp_all del: power_int_numeral_neg_numeral
        add: power_int_strict_increasing)
  then have e: "- 1022 \<le> e"
    using binaryExponent_mono [OF _ assms] by (simp add: e_def)
  define u :: rat where "u = 2 powi (e - 52)"
  have u: "0 < u" by (simp add: u_def)
  have ulp: "ulp a = u" using e by (simp add: ulp_def u_def e_def)
  have "(2::rat) powi (52 + (e - 52)) = 2 powi 52 * u"
    unfolding u_def by (rule power_int_add) simp
  then have "2 ^ 52 * u \<le> a"
    using binaryExponent_bounds [OF pos] by (simp add: e_def)
  then have ua: "u / 2 \<le> a / 2 ^ 53" by simp
  have "roundMagnitude a - a = (of_int (roundHalfEven (a / u)) - a / u) * u"
    using u by (simp add: roundMagnitude_def ulp field_simps)
  then have "\<bar>roundMagnitude a - a\<bar> = \<bar>of_int (roundHalfEven (a / u)) - a / u\<bar> * u"
    using u by (simp add: abs_mult)
  also have "\<dots> \<le> 1 / 2 * u"
    using u roundHalfEven_error [of "a / u"] by (intro mult_right_mono) auto
  finally show ?thesis using ua by simp
qed

text \<open>Ties go to the even significand, and large values overflow.\<close>

lemma floor_rat_numeral: "\<lfloor>numeral a / numeral b :: rat\<rfloor> = numeral a div numeral b"
  by (metis floor_divide_of_int_eq of_int_numeral)

lemma toDouble_ties:
  "toDouble 9007199254740993 = Fin 9007199254740992"
  "toDouble 9007199254740995 = Fin 9007199254740996"
proof -
  have "roundHalfEven (9007199254740993 / 2) = 4503599627370496"
    and "roundHalfEven (9007199254740995 / 2) = 4503599627370498"
    by (simp_all add: roundHalfEven_def Let_def floor_rat_numeral)
  then show "toDouble 9007199254740993 = Fin 9007199254740992"
    and "toDouble 9007199254740995 = Fin 9007199254740996"
    using toDouble_eval [of 53 9007199254740993 4503599627370496]
      toDouble_eval [of 53 9007199254740995 4503599627370498]
    by simp_all
qed

lemma toDouble_overflow: "toDouble (10 ^ 309) = PosInf"
proof -
  have "(2::rat) ^ 1024 \<le> 10 ^ 309" by simp
  then have "roundMagnitude (2 ^ 1024) \<le> roundMagnitude (10 ^ 309)"
    by (intro roundMagnitude_mono) auto
  moreover have "roundMagnitude (2 ^ 1024) =
      of_int (roundHalfEven (2 ^ 1024 / 2 powi (1024 - 52))) * 2 powi (1024 - 52)"
    by (intro roundMagnitude_eval) simp_all
  moreover have "(2::rat) ^ 1024 / 2 powi (1024 - 52) = of_int (2 ^ 52)" by simp
  ultimately have "2 ^ 1024 \<le> roundMagnitude (10 ^ 309)"
    by (simp only: roundHalfEven_of_int) simp
  then show ?thesis
    using toDouble_positive [of "10 ^ 309"] by (simp del: power_numeral)
qed

section \<open>Properties of the percentage\<close>

text \<open>For a positive total the percentage is not negative and grows with the byte count.\<close>

lemma times100_nonnegative:
  assumes "0 \<le> x"
  shows "times100 (Fin x) = PosInf \<or> (\<exists>z\<ge>0. times100 (Fin x) = Fin z)"
  using toDouble_nonneg_cases [of "x * 100"] assms by simp

lemma times100_mono:
  assumes "0 \<le> x" "x \<le> y"
  shows "lessEq (times100 (Fin x)) (times100 (Fin y))"
  using toDouble_mono [of "x * 100" "y * 100"] assms by simp

lemma percentage_mono:
  assumes "0 < t" "n \<le> m"
  shows "lessEq (times100 (dividedBy n (Fin t))) (times100 (dividedBy m (Fin t)))"
proof -
  let ?a = "of_nat n / t" and ?b = "of_nat m / t"
  have ab: "0 \<le> ?a" "?a \<le> ?b" "0 \<le> ?b"
    using assms by (simp_all add: divide_right_mono)
  have le: "lessEq (toDouble ?a) (toDouble ?b)"
    by (rule toDouble_mono [OF ab(1,2)])
  consider (inf) "toDouble ?b = PosInf" | (fin) y where "0 \<le> y" "toDouble ?b = Fin y"
    using toDouble_nonneg_cases [OF ab(3)] by auto
  then have "lessEq (times100 (toDouble ?a)) (times100 (toDouble ?b))"
  proof cases
    case inf
    from toDouble_nonneg_cases [OF ab(1)] show ?thesis
    proof (elim disjE exE conjE)
      assume "toDouble ?a = PosInf"
      then show ?thesis using inf by simp
    next
      fix x assume x: "0 \<le> x" "toDouble ?a = Fin x"
      then show ?thesis using inf times100_nonnegative [OF x(1)] by auto
    qed
  next
    case fin
    from toDouble_nonneg_cases [OF ab(1)] show ?thesis
    proof (elim disjE exE conjE)
      assume "toDouble ?a = PosInf"
      then show ?thesis using le fin by simp
    next
      fix x assume x: "0 \<le> x" "toDouble ?a = Fin x"
      then have "x \<le> y" using le fin by simp
      then show ?thesis using x fin times100_mono [of x y] by simp
    qed
  qed
  then show ?thesis using assms(1) by simp
qed

lemma percentage_nonnegative:
  assumes "0 < t"
  shows "lessEq (Fin 0) (times100 (dividedBy n (Fin t)))"
proof -
  have "0 \<le> of_nat n / t" using assms by simp
  from toDouble_nonneg_cases [OF this] show ?thesis
  proof (elim disjE exE conjE)
    assume "toDouble (of_nat n / t) = PosInf"
    then show ?thesis using assms by simp
  next
    fix x assume x: "0 \<le> x" "toDouble (of_nat n / t) = Fin x"
    then show ?thesis using assms times100_nonnegative [OF x(1)] by auto
  qed
qed

text \<open>More bytes than a total below \<open>2^53\<close> give more than \<open>100\<close>.\<close>

lemma percentage_over_100:
  assumes "0 < T" "T < 2 ^ 53" "T < n"
  shows "lessEq (Fin 100) (times100 (dividedBy n (Fin (of_nat T))))
    \<and> times100 (dividedBy n (Fin (of_nat T))) \<noteq> Fin 100"
proof -
  let ?x = "of_nat n / of_nat T :: rat"
  have T: "(0::rat) < of_nat T" "(of_nat T :: rat) < 2 ^ 53"
    using assms(1) of_nat_less_iff [of T "2 ^ 53", where 'a = rat] assms(2) by simp_all
  have "(of_nat T :: rat) + 1 \<le> of_nat n"
    using assms(3) of_nat_le_iff [of "T + 1" n, where 'a = rat] by simp
  then have "(of_nat T + 1) / of_nat T \<le> ?x"
    using T(1) by (intro divide_right_mono) auto
  moreover have "(of_nat T + 1) / of_nat T = 1 + 1 / (of_nat T :: rat)"
    using T(1) by (simp add: add_divide_distrib)
  ultimately have "1 + 1 / of_nat T \<le> ?x" by simp
  moreover have "1 / 2 ^ 53 < 1 / (of_nat T :: rat)"
    using T by (simp add: field_simps)
  ultimately have x: "1 + 1 / 2 ^ 53 < ?x" by linarith
  have small: "(0::rat) < 1 / 2 ^ 53" "(0::rat) < 1 / 2 ^ 52" "(0::rat) < 1 / 2 ^ 45"
    by simp_all
  have pos: "0 < ?x" using x small(1) by linarith
  define y where "y = roundMagnitude ?x"
  have y: "1 + 1 / 2 ^ 52 \<le> y"
    unfolding y_def by (rule roundMagnitude_above_one [OF x])
  then have "0 < y" using small(2) by linarith
  then have ypos: "0 < y * 100" by simp
  define z where "z = roundMagnitude (y * 100)"
  have z: "100 + 1 / 2 ^ 45 \<le> z"
    unfolding z_def by (rule roundMagnitude_times100 [OF y])
  then have z100: "100 < z" using small(3) by linarith
  have d: "dividedBy n (Fin (of_nat T)) = toDouble ?x"
    using assms(1) by simp
  have "times100 (toDouble ?x) = PosInf \<or> times100 (toDouble ?x) = Fin z"
    using toDouble_positive [OF pos] toDouble_positive [OF ypos]
    by (auto simp: y_def z_def simp del: power_numeral)
  then show ?thesis
    unfolding d using z100 by auto
qed

text \<open>
  For byte counts below \<open>2^53\<close> the percentage is finite and within \<open>2^(-51)\<close>, relatively,
  of the exact value.
\<close>

lemma percentage_error:
  assumes "0 < T" "T < 2 ^ 53" "n < 2 ^ 53"
  shows "\<exists>p. times100 (dividedBy n (Fin (of_nat T))) = Fin p
    \<and> \<bar>p - 100 * of_nat n / of_nat T\<bar> \<le> 100 * of_nat n / of_nat T / 2 ^ 51"
proof (cases "n = 0")
  case True
  then show ?thesis using assms(1) by (simp add: toDouble_def)
next
  case False
  define x :: rat where "x = of_nat n / of_nat T"
  define w where "w = x / 2 ^ 53"
  have T: "(1::rat) \<le> of_nat T" "(of_nat T :: rat) < 2 ^ 53"
    using assms(1) of_nat_less_iff [of T "2 ^ 53", where 'a = rat] assms(2) by simp_all
  have n: "(1::rat) \<le> of_nat n" "(of_nat n :: rat) < 2 ^ 53"
    using False of_nat_less_iff [of n "2 ^ 53", where 'a = rat] assms(3) by simp_all
  have xlo: "1 / 2 ^ 53 < x"
  proof -
    have "1 / 2 ^ 53 < 1 / (of_nat T :: rat)" using T by (simp add: field_simps)
    also have "\<dots> \<le> x" unfolding x_def using n(1) T(1) by (intro divide_right_mono) auto
    finally show ?thesis .
  qed
  have xhi: "x < 2 ^ 53"
  proof -
    have "x \<le> of_nat n / 1" unfolding x_def using T(1) n(1) by (intro divide_left_mono) auto
    then show ?thesis using n(2) by simp
  qed
  have xpos: "0 < x" using xlo by (simp add: less_trans [OF _ xlo])
  have w: "0 \<le> w" "w \<le> x" "w / 2 ^ 53 \<le> w"
    using xpos by (simp_all add: w_def field_simps)
  have tiny: "(2::rat) powi (- 1022) \<le> 1 / 2 ^ 54"
    by (simp add: power_int_minus field_simps)
  define y where "y = roundMagnitude x"
  have "2 powi (- 1022) \<le> x" using tiny xlo by simp
  then have ey: "\<bar>y - x\<bar> \<le> w"
    unfolding y_def w_def by (rule roundMagnitude_error)
  then have yb: "x - w \<le> y" "y \<le> x + w" by (simp_all add: abs_le_iff)
  have "x / 2 \<le> x - w" using xpos by (simp add: w_def field_simps)
  then have ylo: "1 / 2 ^ 54 < y" using xlo yb(1) by simp
  have yhi: "y < 2 ^ 54" using yb(2) w(2) xhi by simp
  define z where "z = roundMagnitude (y * 100)"
  have "2 powi (- 1022) \<le> y * 100" using tiny ylo by simp
  then have ez: "\<bar>z - y * 100\<bar> \<le> y * 100 / 2 ^ 53"
    unfolding z_def by (rule roundMagnitude_error)
  have "y / 2 ^ 53 \<le> (x + w) / 2 ^ 53" using yb(2) by (simp add: divide_right_mono)
  also have "\<dots> = w + w / 2 ^ 53" by (simp add: w_def add_divide_distrib)
  also have "\<dots> \<le> 2 * w" using w(3) by simp
  finally have "y * 100 / 2 ^ 53 \<le> 200 * w" by simp
  then have ez': "\<bar>z - y * 100\<bar> \<le> 200 * w" using ez by simp
  have zb: "z - y * 100 \<le> 200 * w" "y * 100 - z \<le> 200 * w"
    using ez' by (simp_all add: abs_le_iff)
  have "z - 100 * x \<le> 400 * w" "100 * x - z \<le> 400 * w"
    using zb yb w(1) by linarith+
  then have "\<bar>z - 100 * x\<bar> \<le> 400 * w" by (simp add: abs_le_iff)
  then have err: "\<bar>z - 100 * x\<bar> \<le> 100 * x / 2 ^ 51" by (simp add: w_def)
  have zhi: "z < 2 ^ 1024"
  proof -
    have "z \<le> y * 100 + 200 * w" using zb(1) by simp
    also have "\<dots> < 2 ^ 54 * 100 + 200 * 2 ^ 53" using yhi w(2) xhi by simp
    also have "\<dots> < 2 ^ 1024" by simp
    finally show ?thesis .
  qed
  have ypos: "0 < y * 100" using ylo by (simp add: less_trans [OF _ ylo])
  have "(2::rat) ^ 54 < 2 ^ 1024" by simp
  then have "y < 2 ^ 1024" using yhi by (rule less_trans [rotated])
  then have "toDouble x = Fin y"
    using toDouble_positive [OF xpos] by (simp add: y_def del: power_numeral)
  moreover have "toDouble (y * 100) = Fin z"
    using toDouble_positive [OF ypos] zhi by (simp add: z_def del: power_numeral)
  ultimately have "times100 (dividedBy n (Fin (of_nat T))) = Fin z"
    using assms(1) by (simp add: x_def)
  then show ?thesis using err by (auto simp: x_def)
qed

section \<open>Properties of the sanitizer\<close>

lemma replaceAll_empty: "replaceAll m [] s = filter (\<lambda>c. \<not> m c) s"
  by (induction s) simp_all

lemma canonicalize_ascii: "ch < 128 \<Longrightarrow> canonicalize U ch = asciiUpper ch"
  by (simp add: canonicalize_def)

lemma canonicalize_beyond_ascii: "128 \<le> ch \<Longrightarrow> 128 \<le> canonicalize U ch"
  by (simp add: canonicalize_def Let_def)

lemma classMembers_set:
  "set classMembers = {a. (0x61 \<le> a \<and> a \<le> 0x7A) \<or> (0x30 \<le> a \<and> a \<le> 0x39)
      \<or> a = 0x5F \<or> a = 0x20 \<or> a = 0x2D}"
  unfolding classMembers_def set_append set_upt by auto

lemma classMembers_canonical:
  assumes "a \<in> set classMembers"
  shows "canonicalize U a = asciiUpper a \<and> asciiUpper a < 128"
  using assms by (auto simp: classMembers_set canonicalize_def asciiUpper_def)

lemma classMatches_ascii:
  assumes "ch < 128"
  shows "classMatches U ch \<longleftrightarrow> allowedChar ch"
proof
  assume "classMatches U ch"
  then obtain a where a: "a \<in> set classMembers" "asciiUpper a = asciiUpper ch"
    using assms by (auto simp: classMatches_def list_ex_iff canonicalize_ascii classMembers_canonical)
  then show "allowedChar ch"
    by (auto simp: classMembers_set asciiUpper_def allowedChar_def split: if_splits)
next
  assume ch: "allowedChar ch"
  define a where "a = (if 0x41 \<le> ch \<and> ch \<le> 0x5A then ch + 0x20 else ch)"
  have "a \<in> set classMembers" and "asciiUpper a = asciiUpper ch"
    using ch by (auto simp: a_def classMembers_set asciiUpper_def allowedChar_def)
  then show "classMatches U ch"
    using assms by (auto simp: classMatches_def list_ex_iff canonicalize_ascii classMembers_canonical)
qed

lemma classMatches_beyond_ascii:
  assumes "128 \<le> ch"
  shows "\<not> classMatches U ch"
proof
  assume "classMatches U ch"
  then obtain a where "a \<in> set classMembers" "canonicalize U a = canonicalize U ch"
    by (auto simp: classMatches_def list_ex_iff)
  then have "canonicalize U ch < 128"
    using classMembers_canonical [of a U] by simp
  then show False
    using canonicalize_beyond_ascii [OF assms, of U] by simp
qed

lemma classMatches_allowedChar: "classMatches U ch \<longleftrightarrow> allowedChar ch"
proof (cases "ch < 128")
  case True
  then show ?thesis by (rule classMatches_ascii)
next
  case False
  then have "\<not> allowedChar ch" by (auto simp: allowedChar_def)
  then show ?thesis using False classMatches_beyond_ascii [of ch U] by simp
qed

lemma replace_disallowed: "replaceAll (disallowed U) [] s = filter allowedChar s"
  by (simp add: replaceAll_empty disallowed_def classMatches_allowedChar)

lemma trimEnd_Cons: "\<not> isWhiteSpace x \<Longrightarrow> trimEnd (x # ys) = x # trimEnd ys"
  by (simp add: trimEnd_def dropWhile_append)

lemma trimEnd_idem: "trimEnd (trimEnd t) = trimEnd t"
  by (simp add: trimEnd_def)

lemma trimStart_trimEnd: "trimStart (trimEnd (trimStart s)) = trimEnd (trimStart s)"
proof (cases "trimStart s")
  case Nil
  have "trimStart [] = []" and "trimEnd [] = []"
    by (simp_all add: trimStart_def trimEnd_def)
  with Nil show ?thesis by simp
next
  case (Cons x ys)
  then have "\<not> isWhiteSpace x"
    using hd_dropWhile [of isWhiteSpace s] by (simp add: trimStart_def)
  then show ?thesis
    using Cons by (simp add: trimEnd_Cons) (simp add: trimStart_def)
qed

lemma trim_idem: "trim (trim s) = trim s"
  by (simp add: trim_def trimStart_trimEnd trimEnd_idem)

lemma set_trim: "set (trim s) \<subseteq> set s"
proof -
  have "set (trimEnd t) \<subseteq> set t" for t
    using set_dropWhileD [of _ isWhiteSpace "rev t"] by (auto simp: trimEnd_def)
  moreover have "set (trimStart s) \<subseteq> set s"
    using set_dropWhileD [of _ isWhiteSpace s] by (auto simp: trimStart_def)
  ultimately show ?thesis unfolding trim_def by blast
qed

text \<open>A trimmed string has no white space at either end.\<close>

lemma trim_ends:
  assumes "trim s \<noteq> []"
  shows "\<not> isWhiteSpace (hd (trim s))" and "\<not> isWhiteSpace (last (trim s))"
proof -
  have "dropWhile isWhiteSpace (trim s) = trim s"
    using trimStart_trimEnd [of s] by (simp add: trim_def trimStart_def)
  then show "\<not> isWhiteSpace (hd (trim s))"
    using assms hd_dropWhile [of isWhiteSpace "trim s"] by simp
  have "trimEnd (trim s) = trim s"
    by (simp add: trim_def trimEnd_idem)
  then have "dropWhile isWhiteSpace (rev (trim s)) = rev (trim s)"
    by (metis rev_rev_ident trimEnd_def)
  then show "\<not> isWhiteSpace (last (trim s))"
    using assms hd_dropWhile [of isWhiteSpace "rev (trim s)"] by (simp add: hd_rev)
qed

text \<open>Among the characters kept, white space is the space.\<close>

lemma allowedChar_isWhiteSpace: "allowedChar c \<Longrightarrow> isWhiteSpace c \<longleftrightarrow> c = 0x20"
  by (auto simp: allowedChar_def isWhiteSpace_def)

lemma stripLeadingSpaces_dropWhile: "stripLeadingSpaces s = dropWhile (\<lambda>c. c = 0x20) s"
  by (induction s) simp_all

lemma stripTrailingSpaces_dropWhile:
  "stripTrailingSpaces s = rev (dropWhile (\<lambda>c. c = 0x20) (rev s))"
  by (induction s) (auto simp: Let_def dropWhile_append dropWhile_eq_Nil_conv)

lemma trim_allowed:
  assumes "\<forall>c \<in> set s. allowedChar c"
  shows "trim s = stripTrailingSpaces (stripLeadingSpaces s)"
proof -
  have 1: "trimStart s = stripLeadingSpaces s"
    unfolding trimStart_def stripLeadingSpaces_dropWhile
    using assms by (intro dropWhile_cong) (auto simp: allowedChar_isWhiteSpace)
  have "\<forall>c \<in> set (rev (stripLeadingSpaces s)). allowedChar c"
    using assms set_dropWhileD [of _ "\<lambda>c. c = 0x20" s]
    by (auto simp: stripLeadingSpaces_dropWhile)
  then have "dropWhile isWhiteSpace (rev (stripLeadingSpaces s)) =
      dropWhile (\<lambda>c. c = 0x20) (rev (stripLeadingSpaces s))"
    by (intro dropWhile_cong) (auto simp: allowedChar_isWhiteSpace)
  then show ?thesis
    by (simp add: trim_def 1 trimEnd_def stripTrailingSpaces_dropWhile)
qed

lemma safeFilename_trim:
  "safeFilename U s =
     (if trim (filter allowedChar s) = [] then utf16 ''video'' else trim (filter allowedChar s))"
  by (simp add: safeFilename_def orElse_def replace_disallowed)

lemma safeFilename_sanitize_spec: "safeFilename U s = sanitize_spec s"
  by (simp add: safeFilename_trim sanitize_spec_def Let_def trim_allowed)

lemmas evaluate_sanitize_spec =
  sanitize_spec_def utf16_def allowedChar_def Let_def

lemma safeFilename_video: "safeFilename U (utf16 ''video'') = utf16 ''video''"
  by (simp add: safeFilename_sanitize_spec evaluate_sanitize_spec)

lemma safeFilename_nonempty: "safeFilename U s \<noteq> []"
  by (simp add: safeFilename_trim utf16_def)

lemma safeFilename_allowed: "list_all allowedChar (safeFilename U s)"
proof (cases "trim (filter allowedChar s) = []")
  case True
  then show ?thesis by (simp add: safeFilename_trim utf16_def allowedChar_def)
next
  case False
  then show ?thesis
    using set_trim [of "filter allowedChar s"] by (auto simp: safeFilename_trim list_all_iff)
qed

lemma safeFilename_ends:
  "\<not> isWhiteSpace (hd (safeFilename U s)) \<and> \<not> isWhiteSpace (last (safeFilename U s))"
proof (cases "trim (filter allowedChar s) = []")
  case True
  then show ?thesis by (simp add: safeFilename_trim utf16_def isWhiteSpace_def)
next
  case False
  then show ?thesis
    using trim_ends [of "filter allowedChar s"] by (simp add: safeFilename_trim)
qed

lemma safeFilename_idem: "safeFilename U (safeFilename U s) = safeFilename U s"
proof (cases "trim (filter allowedChar s) = []")
  case True
  then show ?thesis by (simp add: safeFilename_trim [of U s] safeFilename_video)
next
  case False
  let ?r = "trim (filter allowedChar s)"
  have "filter allowedChar ?r = ?r"
    using set_trim [of "filter allowedChar s"] by (auto simp: filter_id_conv)
  then have "safeFilename U ?r = ?r"
    using False by (simp add: safeFilename_trim trim_idem)
  then show ?thesis using False by (simp add: safeFilename_trim [of U s])
qed

text \<open>
  C8. For every input string the file name is the string obtained by deleting every
  character outside \<open>{A-Z, a-z, 0-9, underscore, space, hyphen}\<close> and removing the white
  space at both ends, or \<open>video\<close> when that is empty. So it is never empty, holds only
  characters of the set, and neither starts nor ends with white space.
  \<open>My Video!! #1 <2024>\<close> gives \<open>My Video 1 2024\<close>; a name with blanks around it loses them;
  a blank name, a name of disallowed characters and the empty name give \<open>video\<close>. This
  holds whatever the upper-case table beyond ASCII is.
\<close>

theorem safeFilename_sanitizes:
  "safeFilename U s = sanitize_spec s
   \<and> safeFilename U s \<noteq> []
   \<and> list_all allowedChar (safeFilename U s)
   \<and> \<not> isWhiteSpace (hd (safeFilename U s)) \<and> \<not> isWhiteSpace (last (safeFilename U s))
   \<and> safeFilename U (utf16 ''My Video!! #1 <2024>'') = utf16 ''My Video 1 2024''
   \<and> safeFilename U (utf16 ''  ?my clip!  '') = utf16 ''my clip''
   \<and> safeFilename U (utf16 ''   '') = utf16 ''video''
   \<and> safeFilename U (utf16 ''<>!?'') = utf16 ''video''
   \<and> safeFilename U [] = utf16 ''video''"
proof -
  have "sanitize_spec (utf16 ''My Video!! #1 <2024>'') = utf16 ''My Video 1 2024''"
    and "sanitize_spec (utf16 ''  ?my clip!  '') = utf16 ''my clip''"
    and "sanitize_spec (utf16 ''   '') = utf16 ''video''"
    and "sanitize_spec (utf16 ''<>!?'') = utf16 ''video''"
    and "sanitize_spec [] = utf16 ''video''"
    by (simp_all add: evaluate_sanitize_spec)
  then show ?thesis
    using safeFilename_ends [of U s] safeFilename_nonempty [of U s] safeFilename_allowed [of U s]
    by (simp add: safeFilename_sanitize_spec)
qed

text \<open>
  C9. Sanitizing the output of the sanitizer returns it unchanged.
\<close>

theorem safeFilename_idempotent: "safeFilename U (safeFilename U s) = safeFilename U s"
  by (rule safeFilename_idem)

section \<open>Properties of the read loop and of the download\<close>

lemma totalLength_simps [simp]:
  "totalLength [] = 0" "totalLength (c # cs) = length c + totalLength cs"
  "totalLength (xs @ ys) = totalLength xs + totalLength ys"
  by (simp_all add: totalLength_def)

lemma readLoop_chunks:
  "readLoop tb s (map Chunk cs) =
     (\<lparr>chunks = chunks s @ cs,
       receivedLength = receivedLength s + totalLength cs,
       progressCalls = progressCalls s @
         map (\<lambda>k. times100 (dividedBy (receivedLength s + totalLength (take (Suc k) cs)) tb))
           [0..<length cs],
       reads = Suc (reads s + length cs)\<rparr>, None)"
proof (induction cs arbitrary: s)
  case Nil
  show ?case by simp
next
  case (Cons c cs)
  show ?case
    by (simp add: Cons.IH appendChunk_def Let_def map_upt_Suc add.assoc del: upt_Suc)
qed

lemma loopStates_invariant:
  assumes "totalLength (chunks s) = receivedLength s"
    and "s' \<in> set (loopStates tb s evs)"
  shows "totalLength (chunks s') = receivedLength s'"
  using assms
proof (induction tb s evs rule: loopStates.induct)
  case (3 tb s v rest)
  let ?s1 = "appendChunk tb (s\<lparr>reads := Suc (reads s)\<rparr>) v"
  have inv: "totalLength (chunks ?s1) = receivedLength ?s1"
    using "3.prems"(1) by (simp add: appendChunk_def Let_def)
  from "3.prems"(2) have "s' = ?s1 \<or> s' \<in> set (loopStates tb ?s1 rest)"
    by (simp add: Let_def)
  then show ?case
    using inv "3.IH" [OF refl inv] by auto
qed simp_all

lemma readLoop_last_state:
  "fst (readLoop tb s evs) =
     (let l = last (s # loopStates tb s evs) in l\<lparr>reads := Suc (reads l)\<rparr>)"
  by (induction tb s evs rule: readLoop.induct) (simp_all add: Let_def)

lemma snapshots_of_calls:
  "progress out = Some x # map Some xs @ [None] \<Longrightarrow> snapshots out = x # xs"
  by (induction xs) (simp_all add: snapshots_def comp_def)

lemma tryBlock_streams:
  assumes "ok r" "body r = Some stream" "contentLength r = Some header" "header \<noteq> []"
  shows "progress (tryBlock U (Resolved r) filename) =
           map Some (progressCalls (fst (readLoop (parseInt10 header) initialState stream)))"
    and "readCalls (tryBlock U (Resolved r) filename) =
           reads (fst (readLoop (parseInt10 header) initialState stream))"
  using assms
  by (simp_all add: tryBlock_def Let_def split: prod.splits option.splits)

lemma tryBlock_no_stream:
  assumes "\<not> ok r \<or> body r = None \<or> contentLength r = None \<or> contentLength r = Some []"
  shows "progress (tryBlock U (Resolved r) filename) = []"
    and "readCalls (tryBlock U (Resolved r) filename) = 0"
    and "downloads (tryBlock U (Resolved r) filename) = []"
    and "failure (tryBlock U (Resolved r) filename) \<noteq> None"
  using assms
  by (auto simp add: tryBlock_def failed_def split: option.splits)

lemma tryBlock_chunks:
  assumes "ok r" "body r = Some (map Chunk cs)" "contentLength r = Some header" "header \<noteq> []"
  shows "tryBlock U (Resolved r) filename =
     \<lparr>failure = None,
      progress = map (\<lambda>k. Some (times100 (dividedBy (totalLength (take (Suc k) cs)) (parseInt10 header))))
           [0..<length cs],
      readCalls = Suc (length cs),
      warnings = (if strictNotEqual (totalLength cs) (parseInt10 header)
                  then [(totalLength cs, parseInt10 header)] else []),
      downloads = [\<lparr>bytes = concat cs, mimeType = utf16 ''video/mp4'',
                    download = safeFilename U filename @ utf16 ''.mp4''\<rparr>]\<rparr>"
  using assms
  by (simp add: tryBlock_def readLoop_chunks initialState_def comp_def Let_def)

lemma readLoop_received_lengths:
  assumes "progressCalls s = map (\<lambda>n. times100 (dividedBy n tb)) ns" "sorted ns"
    and "\<forall>n\<in>set ns. n \<le> receivedLength s"
  shows "\<exists>ns'. progressCalls (fst (readLoop tb s evs)) = map (\<lambda>n. times100 (dividedBy n tb)) ns'
            \<and> sorted ns'"
  using assms
proof (induction evs arbitrary: s ns)
  case Nil
  then show ?case by auto
next
  case (Cons ev evs)
  show ?case
  proof (cases ev)
    case (ReadError e)
    with Cons.prems show ?thesis by auto
  next
    case (Chunk v)
    let ?s1 = "appendChunk tb (s\<lparr>reads := Suc (reads s)\<rparr>) v"
    let ?n = "receivedLength s + length v"
    have 1: "progressCalls ?s1 = map (\<lambda>n. times100 (dividedBy n tb)) (ns @ [?n])"
      using Cons.prems(1) by (simp add: appendChunk_def Let_def)
    have 2: "sorted (ns @ [?n])"
      using Cons.prems(2,3) by (auto simp: sorted_append)
    have 3: "\<forall>n\<in>set (ns @ [?n]). n \<le> receivedLength ?s1"
      using Cons.prems(3) by (auto simp: appendChunk_def Let_def)
    show ?thesis
      using Cons.IH [OF 1 2 3] Chunk by simp
  qed
qed

lemma percentages_sorted:
  assumes "0 < t" "sorted ns"
  shows "sorted_wrt lessEq (Fin 0 # map (\<lambda>n. times100 (dividedBy n (Fin t))) ns)"
proof -
  have "sorted_wrt (\<lambda>n m. lessEq (times100 (dividedBy n (Fin t))) (times100 (dividedBy m (Fin t)))) ns"
  proof (rule sorted_wrt_mono_rel [OF _ assms(2)])
    fix n m :: nat
    assume "n \<le> m"
    then show "lessEq (times100 (dividedBy n (Fin t))) (times100 (dividedBy m (Fin t)))"
      by (rule percentage_mono [OF assms(1)])
  qed
  then show ?thesis
    using percentage_nonnegative [OF assms(1)]
    by (simp add: sorted_wrt_map del: dividedBy.simps)
qed

text \<open>Values of the rounding used below.\<close>

lemma toDouble_dyadic:
  "toDouble (1 / 4) = Fin (1 / 4)" "toDouble (1 / 2) = Fin (1 / 2)"
  "toDouble (3 / 4) = Fin (3 / 4)" "toDouble (3 / 2) = Fin (3 / 2)"
  using toDouble_nearest [of "- 2" "1 / 4" "2 ^ 52"] toDouble_nearest [of "- 1" "1 / 2" "2 ^ 52"]
    toDouble_nearest [of "- 1" "3 / 4" "3 * 2 ^ 51"] toDouble_nearest [of 0 "3 / 2" "3 * 2 ^ 51"]
  by simp_all

lemma toDouble_7_of_100:
  "toDouble (7 / 100) = Fin (1261007895663739 / 18014398509481984)"
  "toDouble (31525197391593475 / 4503599627370496) = Fin (7881299347898369 / 1125899906842624)"
  using toDouble_nearest [of "- 4" "7 / 100" 5044031582654956]
    toDouble_nearest [of 2 "31525197391593475 / 4503599627370496" 7881299347898369]
  by simp_all

lemmas evaluate_parseInt10 =
  parseInt10_def trimStart_def isWhiteSpace_def isDigit_def digitsValue_def utf16_def Let_def
  toDouble_numeral

lemmas evaluate_percentage = toDouble_numeral toDouble_one toDouble_dyadic toDouble_7_of_100

lemma downloadFileWithProgress_chunks:
  assumes "fetch url = Resolved r" "ok r" "body r = Some (map Chunk cs)"
    and "contentLength r = Some header" "header \<noteq> []"
  shows "downloadFileWithProgress U fetch url filename =
     \<lparr>failure = None,
      progress = Some (Fin 0) #
        map (\<lambda>k. Some (times100 (dividedBy (totalLength (take (Suc k) cs)) (parseInt10 header))))
           [0..<length cs] @ [None],
      readCalls = Suc (length cs),
      warnings = (if strictNotEqual (totalLength cs) (parseInt10 header)
                  then [(totalLength cs, parseInt10 header)] else []),
      downloads = [\<lparr>bytes = concat cs, mimeType = utf16 ''video/mp4'',
                    download = safeFilename U filename @ utf16 ''.mp4''\<rparr>]\<rparr>"
  using assms(1) tryBlock_chunks [OF assms(2-5), of U filename]
  by (simp add: downloadFileWithProgress_def)

lemma parseInt10_empty: "parseInt10 [] = NaN"
  by (simp add: evaluate_parseInt10)

text \<open>
  C1. When the response is accepted and its body delivers the chunks \<open>cs\<close> and then ends,
  the file handed to the browser holds exactly the concatenation of the chunks in arrival
  order, and its length is the sum of their sizes.
\<close>

theorem artifact_is_concatenation:
  assumes "fetch url = Resolved r" "ok r" "body r = Some (map Chunk cs)"
    and "contentLength r = Some header" "header \<noteq> []"
  shows "failure (downloadFileWithProgress U fetch url filename) = None
    \<and> downloads (downloadFileWithProgress U fetch url filename) =
        [\<lparr>bytes = concat cs, mimeType = utf16 ''video/mp4'',
          download = safeFilename U filename @ utf16 ''.mp4''\<rparr>]
    \<and> length (concat cs) = totalLength cs"
  by (simp add: downloadFileWithProgress_chunks [where fetch = fetch and url = url, OF assms]
      totalLength_def length_concat)

theorem artifact_is_concatenation_witness:
  "downloads (downloadFileWithProgress (\<lambda>c. c)
      (\<lambda>u. Resolved \<lparr>ok = True, status = 200,
         body = Some (map Chunk [[1, 2], [], [3], [4, 5, 6]]),
         contentLength = Some (utf16 ''5'')\<rparr>) (utf16 ''u'') (utf16 ''a b''))
   = [\<lparr>bytes = [1, 2, 3, 4, 5, 6], mimeType = utf16 ''video/mp4'',
       download = utf16 ''a b.mp4''\<rparr>]
   \<and> length (concat [[1, 2], [], [3], [4, 5, 6 :: byte]]) = totalLength [[1, 2], [], [3], [4, 5, 6]]"
  using artifact_is_concatenation [of "\<lambda>u. Resolved \<lparr>ok = True, status = 200,
         body = Some (map Chunk [[1, 2], [], [3], [4, 5, 6]]),
         contentLength = Some (utf16 ''5'')\<rparr>" "utf16 ''u''" _ "[[1, 2], [], [3], [4, 5, 6]]"
         "utf16 ''5''" "\<lambda>c. c" "utf16 ''a b''"]
  by (simp add: safeFilename_sanitize_spec evaluate_sanitize_spec)

text \<open>
  C2. In the initial state, after each chunk appended and in the state the loop ends with,
  the total length of the chunk sequence equals \<open>receivedLength\<close>; this holds for every
  body, also one whose read fails, and for every value of the header.
\<close>

theorem accumulator_matches_counter:
  "(\<forall>s \<in> set (initialState # loopStates totalBytes initialState stream).
        totalLength (chunks s) = receivedLength s)
   \<and> totalLength (chunks (fst (readLoop totalBytes initialState stream))) =
       receivedLength (fst (readLoop totalBytes initialState stream))"
proof -
  have init: "totalLength (chunks initialState) = receivedLength initialState"
    by (simp add: initialState_def)
  have all: "\<forall>s \<in> set (initialState # loopStates totalBytes initialState stream).
        totalLength (chunks s) = receivedLength s"
    using init loopStates_invariant [OF init] by auto
  then have "totalLength (chunks (last (initialState # loopStates totalBytes initialState stream))) =
      receivedLength (last (initialState # loopStates totalBytes initialState stream))"
    using last_in_set [of "initialState # loopStates totalBytes initialState stream"] by blast
  then show ?thesis
    using all by (simp add: readLoop_last_state Let_def)
qed

theorem accumulator_matches_counter_witness:
  "map (\<lambda>s. (totalLength (chunks s), receivedLength s))
     (initialState # loopStates (Fin 10) initialState [Chunk [1, 2], Chunk [3], ReadError NonError])
   = [(0, 0), (2, 2), (3, 3)]
   \<and> totalLength (chunks (fst (readLoop (Fin 10) initialState [Chunk [1, 2], Chunk [3], ReadError NonError]))) = 3
   \<and> receivedLength (fst (readLoop (Fin 10) initialState [Chunk [1, 2], Chunk [3], ReadError NonError])) = 3"
  using accumulator_matches_counter [of "Fin 10" "[Chunk [1, 2], Chunk [3], ReadError NonError]"]
  by (simp add: initialState_def appendChunk_def Let_def)

text \<open>
  C3. For a positive declared total, the numbers passed to \<open>setDownloadProgress\<close> by one
  run never decrease, whatever the body delivers (chunks of any sizes, then the end of
  the data or a failing read).
\<close>
theorem percentages_nondecreasing:
  assumes "fetch url = Resolved r" "contentLength r = Some header"
    and "parseInt10 header = Fin t" "0 < t"
  shows "sorted_wrt lessEq (snapshots (downloadFileWithProgress U fetch url filename))"
proof (cases "ok r \<and> body r \<noteq> None \<and> header \<noteq> []")
  case True
  then obtain stream where stream: "body r = Some stream" by auto
  obtain ns where ns:
    "progressCalls (fst (readLoop (Fin t) initialState stream)) =
       map (\<lambda>n. times100 (dividedBy n (Fin t))) ns"
    "sorted ns"
    using readLoop_received_lengths [of initialState "Fin t" "[]" stream]
    by (auto simp: initialState_def)
  have "progress (downloadFileWithProgress U fetch url filename) =
          Some (Fin 0) # map Some (map (\<lambda>n. times100 (dividedBy n (Fin t))) ns) @ [None]"
    using True stream assms(1-3) ns(1)
    by (simp add: downloadFileWithProgress_def Let_def tryBlock_streams)
  then have "snapshots (downloadFileWithProgress U fetch url filename) =
      Fin 0 # map (\<lambda>n. times100 (dividedBy n (Fin t))) ns"
    by (rule snapshots_of_calls)
  then show ?thesis
    using percentages_sorted [OF assms(4) ns(2)] by (simp only:)
next
  case False
  then have "progress (tryBlock U (Resolved r) filename) = []"
    using assms(2) by (intro tryBlock_no_stream) auto
  then show ?thesis
    using assms(1) by (simp add: snapshots_def downloadFileWithProgress_def Let_def)
qed

theorem percentages_nondecreasing_witness:
  "sorted_wrt lessEq (snapshots (downloadFileWithProgress (\<lambda>c. c)
      (\<lambda>u. Resolved \<lparr>ok = True, status = 200,
         body = Some [Chunk [1, 2], Chunk [], Chunk [3], ReadError NonError],
         contentLength = Some (utf16 ''4'')\<rparr>) [] []))"
  by (rule percentages_nondecreasing [where t = 4 and header = "utf16 ''4''" and r =
        "\<lparr>ok = True, status = 200,
          body = Some [Chunk [1, 2], Chunk [], Chunk [3], ReadError NonError],
          contentLength = Some (utf16 ''4'')\<rparr>"])
    (simp_all add: evaluate_parseInt10)

lemma scenario_A:
  "downloadFileWithProgress U
      (\<lambda>u. Resolved \<lparr>ok = True, status = 200,
         body = Some [Chunk (replicate 250 0), Chunk (replicate 250 0), Chunk (replicate 500 0)],
         contentLength = Some (utf16 ''1000'')\<rparr>) url filename
    = \<lparr>failure = None,
       progress = [Some (Fin 0), Some (Fin 25), Some (Fin 50), Some (Fin 100), None],
       readCalls = 4, warnings = [],
       downloads = [\<lparr>bytes = replicate 1000 0, mimeType = utf16 ''video/mp4'',
                     download = safeFilename U filename @ utf16 ''.mp4''\<rparr>]\<rparr>"
proof -
  have "replicate 250 0 @ replicate 250 0 @ replicate 500 0 = replicate 1000 (0 :: byte)"
    by (simp add: replicate_add [symmetric])
  then show ?thesis
    by (simp add: downloadFileWithProgress_def tryBlock_def initialState_def appendChunk_def
      evaluate_parseInt10 evaluate_percentage)
qed

text \<open>
  C4 as stated fails: for the header \<open>100\<close> and a chunk of 7 bytes the code passes
  \<open>(7 / 100) * 100\<close> computed in binary64, which is \<open>7.000000000000001\<close>
  (\<open>7881299347898369 / 2^50\<close>) and not \<open>100 * 7 / 100 = 7\<close>.
\<close>

theorem percentage_formula_counterexample:
  "progress (downloadFileWithProgress (\<lambda>c. c)
      (\<lambda>u. Resolved \<lparr>ok = True, status = 200, body = Some [Chunk (replicate 7 0)],
         contentLength = Some (utf16 ''100'')\<rparr>) [] [])
    = [Some (Fin 0), Some (Fin (7881299347898369 / 2 ^ 50)), None]
   \<and> (7881299347898369 / 2 ^ 50 :: rat) \<noteq> 100 * 7 / 100"
  by (simp add: downloadFileWithProgress_def tryBlock_def initialState_def appendChunk_def
      evaluate_parseInt10 evaluate_percentage)

text \<open>
  C4, as the code has it. When the body delivers the chunks \<open>cs\<close> and the header parses to
  a positive total \<open>T\<close> below \<open>2^53\<close>, the calls of \<open>setDownloadProgress\<close> are \<open>0\<close>, then for
  each chunk \<open>(received / T) * 100\<close> with \<open>received\<close> the bytes read so far, evaluated in
  binary64 (the quotient rounded, then the product rounded), then \<open>null\<close>. For a byte
  count below \<open>2^53\<close> that value is finite and within \<open>2^(-51)\<close>, relatively, of the exact
  \<open>100 * received / T\<close>. Nothing clamps it: once more than \<open>T\<close> bytes are read it is greater
  than \<open>100\<close>. For the header \<open>1000\<close> and chunks of 250, 250 and 500 bytes the percentages
  are exactly \<open>25\<close>, \<open>50\<close>, \<open>100\<close>.
\<close>

theorem percentage_is_rounded_quotient:
  "(fetch url = Resolved r \<and> ok r \<and> body r = Some (map Chunk cs)
      \<and> contentLength r = Some header \<and> parseInt10 header = Fin (of_nat T)
      \<and> 0 < T \<and> T < 2 ^ 53 \<longrightarrow>
      progress (downloadFileWithProgress U fetch url filename) =
        Some (Fin 0) #
        map (\<lambda>k. Some (times100 (dividedBy (totalLength (take (Suc k) cs)) (Fin (of_nat T)))))
          [0..<length cs]
        @ [None]
      \<and> (\<forall>k < length cs. totalLength (take (Suc k) cs) < 2 ^ 53 \<longrightarrow>
          (\<exists>p. progress (downloadFileWithProgress U fetch url filename) ! Suc k = Some (Fin p)
             \<and> \<bar>p - 100 * of_nat (totalLength (take (Suc k) cs)) / of_nat T\<bar>
                 \<le> 100 * of_nat (totalLength (take (Suc k) cs)) / of_nat T / 2 ^ 51))
      \<and> (\<forall>k < length cs. T < totalLength (take (Suc k) cs) \<longrightarrow>
          (\<exists>p. progress (downloadFileWithProgress U fetch url filename) ! Suc k = Some p
             \<and> lessEq (Fin 100) p \<and> p \<noteq> Fin 100)))
   \<and> progress (downloadFileWithProgress U
        (\<lambda>u. Resolved \<lparr>ok = True, status = 200,
           body = Some [Chunk (replicate 250 0), Chunk (replicate 250 0), Chunk (replicate 500 0)],
           contentLength = Some (utf16 ''1000'')\<rparr>) url filename)
      = [Some (Fin 0), Some (Fin 25), Some (Fin 50), Some (Fin 100), None]"
proof (intro conjI impI allI; (elim conjE)?)
  assume a: "fetch url = Resolved r" "ok r" "body r = Some (map Chunk cs)"
    "contentLength r = Some header"
    and T: "parseInt10 header = Fin (of_nat T)" "0 < T" "T < 2 ^ 53"
  have header: "header \<noteq> []"
    using T(1) parseInt10_empty by auto
  show 1: "progress (downloadFileWithProgress U fetch url filename) =
      Some (Fin 0) #
      map (\<lambda>k. Some (times100 (dividedBy (totalLength (take (Suc k) cs)) (Fin (of_nat T)))))
        [0..<length cs]
      @ [None]"
    by (simp add: downloadFileWithProgress_chunks [where fetch = fetch and url = url,
          OF a header] T(1))
  {
    fix k assume k: "k < length cs"
    have nth: "progress (downloadFileWithProgress U fetch url filename) ! Suc k =
        Some (times100 (dividedBy (totalLength (take (Suc k) cs)) (Fin (of_nat T))))"
      using k by (simp add: 1 nth_append del: upt_Suc dividedBy.simps)
    {
      assume "totalLength (take (Suc k) cs) < 2 ^ 53"
      from percentage_error [OF T(2,3) this]
      show "\<exists>p. progress (downloadFileWithProgress U fetch url filename) ! Suc k = Some (Fin p)
             \<and> \<bar>p - 100 * of_nat (totalLength (take (Suc k) cs)) / of_nat T\<bar>
                 \<le> 100 * of_nat (totalLength (take (Suc k) cs)) / of_nat T / 2 ^ 51"
        unfolding nth by blast
    }
    {
      assume "T < totalLength (take (Suc k) cs)"
      from percentage_over_100 [OF T(2,3) this]
      show "\<exists>p. progress (downloadFileWithProgress U fetch url filename) ! Suc k = Some p
             \<and> lessEq (Fin 100) p \<and> p \<noteq> Fin 100"
        unfolding nth by blast
    }
  }
next
  show "progress (downloadFileWithProgress U
        (\<lambda>u. Resolved \<lparr>ok = True, status = 200,
           body = Some [Chunk (replicate 250 0), Chunk (replicate 250 0), Chunk (replicate 500 0)],
           contentLength = Some (utf16 ''1000'')\<rparr>) url filename)
      = [Some (Fin 0), Some (Fin 25), Some (Fin 50), Some (Fin 100), None]"
    by (simp add: scenario_A)
qed

theorem percentage_is_rounded_quotient_witness:
  "progress (downloadFileWithProgress (\<lambda>c. c)
      (\<lambda>u. Resolved \<lparr>ok = True, status = 200, body = Some (map Chunk [[1, 2, 3], [4, 5, 6]]),
         contentLength = Some (utf16 ''4'')\<rparr>) [] [])
    = [Some (Fin 0), Some (Fin 75), Some (Fin 150), None]"
  using percentage_is_rounded_quotient [of "\<lambda>u. Resolved \<lparr>ok = True, status = 200,
         body = Some (map Chunk [[1, 2, 3], [4, 5, 6]]),
         contentLength = Some (utf16 ''4'')\<rparr>" "[]" _ "[[1, 2, 3], [4, 5, 6]]" "utf16 ''4''" 4
         "\<lambda>c. c" "[]"]
  by (simp add: evaluate_parseInt10 evaluate_percentage)

lemma downloadFileWithProgress_no_length:
  assumes "fetch url = Resolved r" "contentLength r = None"
  shows "downloadFileWithProgress U fetch url filename =
     \<lparr>failure = Some (Error (CouldNotDownload
         (if \<not> ok r then HttpErrorStatus (status r)
          else if body r = None then ResponseBodyIsNull
          else ContentLengthUnavailable))),
      progress = [Some (Fin 0), None], readCalls = 0, warnings = [], downloads = []\<rparr>"
  using assms
  by (simp add: downloadFileWithProgress_def tryBlock_def failed_def rethrown_def
      split: option.splits)

text \<open>
  C5, as the code has it. A response without a \<open>content-length\<close> header makes the run fail
  before the reader is obtained: no read, no percentage beyond the initial \<open>0\<close>, no file.
  The error is the missing-length one when the response is \<open>ok\<close> and has a body; the
  checks of \<open>ok\<close> and of the body come first.
\<close>

theorem missing_length_fails_before_reading:
  "fetch url = Resolved r \<and> contentLength r = None \<longrightarrow>
     failure (downloadFileWithProgress U fetch url filename) \<noteq> None
     \<and> readCalls (downloadFileWithProgress U fetch url filename) = 0
     \<and> snapshots (downloadFileWithProgress U fetch url filename) = [Fin 0]
     \<and> downloads (downloadFileWithProgress U fetch url filename) = []
     \<and> (ok r \<and> body r \<noteq> None \<longrightarrow>
          failure (downloadFileWithProgress U fetch url filename) =
            Some (Error (CouldNotDownload ContentLengthUnavailable)))"
  by (auto simp add: downloadFileWithProgress_no_length [where fetch = fetch and url = url]
      snapshots_def)

theorem missing_length_fails_before_reading_witness:
  "downloadFileWithProgress (\<lambda>c. c)
     (\<lambda>u. Resolved \<lparr>ok = True, status = 200, body = Some [Chunk [1]], contentLength = None\<rparr>)
     [] []
   = \<lparr>failure = Some (Error (CouldNotDownload ContentLengthUnavailable)),
      progress = [Some (Fin 0), None], readCalls = 0, warnings = [], downloads = []\<rparr>"
  using missing_length_fails_before_reading [of "\<lambda>u. Resolved \<lparr>ok = True, status = 200,
      body = Some [Chunk [1]], contentLength = None\<rparr>" "[]" _ "\<lambda>c. c" "[]"]
  by (simp add: downloadFileWithProgress_def tryBlock_def failed_def rethrown_def)

text \<open>
  C5 as stated fails for a response that is not \<open>ok\<close>: a 404 without a \<open>content-length\<close>
  header is reported as the HTTP error, not as the missing header.
\<close>

theorem missing_length_counterexample:
  "contentLength \<lparr>ok = False, status = 404, body = Some [], contentLength = None\<rparr> = None
   \<and> failure (downloadFileWithProgress (\<lambda>c. c)
        (\<lambda>u. Resolved \<lparr>ok = False, status = 404, body = Some [], contentLength = None\<rparr>)
        [] [])
      = Some (Error (CouldNotDownload (HttpErrorStatus 404)))
   \<and> Some (Error (CouldNotDownload (HttpErrorStatus 404)))
      \<noteq> Some (Error (CouldNotDownload ContentLengthUnavailable))"
  by (simp add: downloadFileWithProgress_def tryBlock_def failed_def rethrown_def)

text \<open>
  C6 as stated fails: the header \<open>0\<close> is a non-empty string, so it passes the check, the
  loop runs, and the chunk that arrives gives the percentage \<open>1 / 0 * 100\<close>, which is
  \<open>Infinity\<close>.
\<close>

theorem zero_total_counterexample:
  "parseInt10 (utf16 ''0'') = Fin 0
   \<and> downloadFileWithProgress (\<lambda>c. c)
       (\<lambda>u. Resolved \<lparr>ok = True, status = 200, body = Some [Chunk [7]],
          contentLength = Some (utf16 ''0'')\<rparr>) [] []
     = \<lparr>failure = None, progress = [Some (Fin 0), Some PosInf, None], readCalls = 2,
        warnings = [(1, Fin 0)],
        downloads = [\<lparr>bytes = [7], mimeType = utf16 ''video/mp4'',
                      download = utf16 ''video.mp4''\<rparr>]\<rparr>"
  by (simp add: downloadFileWithProgress_def tryBlock_def initialState_def appendChunk_def
      evaluate_parseInt10 safeFilename_sanitize_spec evaluate_sanitize_spec)

text \<open>
  C6, as the code has it. A declared total of zero is accepted: the loop runs and the run
  completes with the bytes received. A percentage is computed for each chunk that arrives
  (none when the body is empty); the division by zero gives \<open>Infinity\<close> (\<open>-Infinity\<close> for
  the header \<open>-0\<close>), or \<open>NaN\<close> as long as no byte has been received.
\<close>

theorem zero_total_is_accepted:
  "fetch url = Resolved r \<and> ok r \<and> body r = Some (map Chunk cs)
     \<and> contentLength r = Some header
     \<and> (parseInt10 header = Fin 0 \<or> parseInt10 header = NegZero) \<longrightarrow>
     failure (downloadFileWithProgress U fetch url filename) = None
     \<and> readCalls (downloadFileWithProgress U fetch url filename) = Suc (length cs)
     \<and> snapshots (downloadFileWithProgress U fetch url filename) =
         Fin 0 # map (\<lambda>k. if totalLength (take (Suc k) cs) = 0 then NaN
                           else if parseInt10 header = Fin 0 then PosInf else NegInf)
                  [0..<length cs]
     \<and> downloads (downloadFileWithProgress U fetch url filename) =
         [\<lparr>bytes = concat cs, mimeType = utf16 ''video/mp4'',
           download = safeFilename U filename @ utf16 ''.mp4''\<rparr>]"
proof (intro impI; elim conjE)
  assume a: "fetch url = Resolved r" "ok r" "body r = Some (map Chunk cs)"
    "contentLength r = Some header"
    and zero: "parseInt10 header = Fin 0 \<or> parseInt10 header = NegZero"
  have header: "header \<noteq> []"
    using zero parseInt10_empty by auto
  note out = downloadFileWithProgress_chunks [where fetch = fetch and url = url, OF a header]
  have "snapshots (downloadFileWithProgress U fetch url filename) =
      Fin 0 # map (\<lambda>k. if totalLength (take (Suc k) cs) = 0 then NaN
                        else if parseInt10 header = Fin 0 then PosInf else NegInf)
               [0..<length cs]"
    using zero by (intro snapshots_of_calls) (auto simp: out)
  then show "failure (downloadFileWithProgress U fetch url filename) = None
     \<and> readCalls (downloadFileWithProgress U fetch url filename) = Suc (length cs)
     \<and> snapshots (downloadFileWithProgress U fetch url filename) =
         Fin 0 # map (\<lambda>k. if totalLength (take (Suc k) cs) = 0 then NaN
                           else if parseInt10 header = Fin 0 then PosInf else NegInf)
                  [0..<length cs]
     \<and> downloads (downloadFileWithProgress U fetch url filename) =
         [\<lparr>bytes = concat cs, mimeType = utf16 ''video/mp4'',
           download = safeFilename U filename @ utf16 ''.mp4''\<rparr>]"
    by (simp add: out)
qed

theorem zero_total_is_accepted_witness:
  "downloadFileWithProgress (\<lambda>c. c)
       (\<lambda>u. Resolved \<lparr>ok = True, status = 200, body = Some (map Chunk [[], [7], [8, 9]]),
          contentLength = Some (utf16 ''0'')\<rparr>) [] (utf16 ''clip'')
     = \<lparr>failure = None,
        progress = [Some (Fin 0), Some NaN, Some PosInf, Some PosInf, None],
        readCalls = 4, warnings = [(3, Fin 0)],
        downloads = [\<lparr>bytes = [7, 8, 9], mimeType = utf16 ''video/mp4'',
                      download = utf16 ''clip.mp4''\<rparr>]\<rparr>
   \<and> snapshots (downloadFileWithProgress (\<lambda>c. c)
       (\<lambda>u. Resolved \<lparr>ok = True, status = 200, body = Some (map Chunk [[], [7], [8, 9]]),
          contentLength = Some (utf16 ''-0'')\<rparr>) [] (utf16 ''clip''))
     = [Fin 0, NaN, NegInf, NegInf]"
  using zero_total_is_accepted [of "\<lambda>u. Resolved \<lparr>ok = True, status = 200,
          body = Some (map Chunk [[], [7], [8, 9]]), contentLength = Some (utf16 ''0'')\<rparr>" "[]" _
          "[[], [7], [8, 9]]" "utf16 ''0''" "\<lambda>c. c" "utf16 ''clip''"]
    zero_total_is_accepted [of "\<lambda>u. Resolved \<lparr>ok = True, status = 200,
          body = Some (map Chunk [[], [7], [8, 9]]), contentLength = Some (utf16 ''-0'')\<rparr>" "[]" _
          "[[], [7], [8, 9]]" "utf16 ''-0''" "\<lambda>c. c" "utf16 ''clip''"]
  by (simp add: downloadFileWithProgress_def tryBlock_def initialState_def appendChunk_def
      snapshots_def evaluate_parseInt10 safeFilename_sanitize_spec evaluate_sanitize_spec)

text \<open>
  C7. When the data ends with a byte count that differs from the declared total, the run
  does not fail: it writes one warning with both numbers and hands over the file made of
  the bytes received.
\<close>

theorem length_mismatch_completes:
  "fetch url = Resolved r \<and> ok r \<and> body r = Some (map Chunk cs)
     \<and> contentLength r = Some header \<and> header \<noteq> []
     \<and> strictNotEqual (totalLength cs) (parseInt10 header) \<longrightarrow>
     failure (downloadFileWithProgress U fetch url filename) = None
     \<and> downloads (downloadFileWithProgress U fetch url filename) =
         [\<lparr>bytes = concat cs, mimeType = utf16 ''video/mp4'',
           download = safeFilename U filename @ utf16 ''.mp4''\<rparr>]
     \<and> warnings (downloadFileWithProgress U fetch url filename) =
         [(totalLength cs, parseInt10 header)]"
  by (auto simp add: downloadFileWithProgress_chunks [where fetch = fetch and url = url])

theorem length_mismatch_completes_witness:
  "failure (downloadFileWithProgress (\<lambda>c. c)
       (\<lambda>u. Resolved \<lparr>ok = True, status = 200, body = Some (map Chunk [replicate 400 0]),
          contentLength = Some (utf16 ''500'')\<rparr>) [] (utf16 ''clip'')) = None
   \<and> downloads (downloadFileWithProgress (\<lambda>c. c)
       (\<lambda>u. Resolved \<lparr>ok = True, status = 200, body = Some (map Chunk [replicate 400 0]),
          contentLength = Some (utf16 ''500'')\<rparr>) [] (utf16 ''clip''))
      = [\<lparr>bytes = replicate 400 0, mimeType = utf16 ''video/mp4'',
          download = utf16 ''clip.mp4''\<rparr>]
   \<and> warnings (downloadFileWithProgress (\<lambda>c. c)
       (\<lambda>u. Resolved \<lparr>ok = True, status = 200, body = Some (map Chunk [replicate 400 0]),
          contentLength = Some (utf16 ''500'')\<rparr>) [] (utf16 ''clip''))
      = [(400, Fin 500)]"
  using length_mismatch_completes [of "\<lambda>u. Resolved \<lparr>ok = True, status = 200,
          body = Some (map Chunk [replicate 400 0]), contentLength = Some (utf16 ''500'')\<rparr>"
          "[]" _ "[replicate 400 0]" "utf16 ''500''" "\<lambda>c. c" "utf16 ''clip''"]
  by (simp add: evaluate_parseInt10 safeFilename_sanitize_spec evaluate_sanitize_spec)

section \<open>Properties of \<open>fetchVideoInfo\<close>\<close>

text \<open>
  C10. For every locator and every behaviour of the API call and of \<open>JSON.parse\<close>,
  \<open>fetchVideoInfo\<close> resolves; whenever its \<open>try\<close> block throws (the call rejects, the text
  is \<open>undefined\<close> or blank, the JSON is malformed or lacks a truthy \<open>title\<close> or \<open>summary\<close>)
  it resolves to the fixed fallback record.
\<close>

theorem fetchVideoInfo_never_rejects:
  "(\<exists>v. fetchVideoInfo generateContent parse url = Inr v)
   \<and> ((\<exists>e. fetchVideoInfoTry generateContent parse url = Inl e) \<longrightarrow>
        fetchVideoInfo generateContent parse url = Inr fallback)
   \<and> ((\<exists>e. generateContent (prompt url) = ApiRejected e) \<longrightarrow>
        fetchVideoInfo generateContent parse url = Inr fallback)
   \<and> (generateContent (prompt url) = ApiResolved None \<longrightarrow>
        fetchVideoInfo generateContent parse url = Inr fallback)
   \<and> ((\<exists>text. generateContent (prompt url) = ApiResolved (Some text) \<and> trim text = []) \<longrightarrow>
        fetchVideoInfo generateContent parse url = Inr fallback)
   \<and> ((\<exists>text. generateContent (prompt url) = ApiResolved (Some text)
          \<and> parse (trim text) = None) \<longrightarrow>
        fetchVideoInfo generateContent parse url = Inr fallback)
   \<and> ((\<exists>text parsedResponse. generateContent (prompt url) = ApiResolved (Some text)
          \<and> parse (trim text) = Some parsedResponse
          \<and> \<not> (truthy (getProperty parsedResponse (utf16 ''title''))
               \<and> truthy (getProperty parsedResponse (utf16 ''summary'')))) \<longrightarrow>
        fetchVideoInfo generateContent parse url = Inr fallback)"
  by (auto simp add: fetchVideoInfo_def fetchVideoInfoTry_def Let_def
      split: apiResult.splits option.splits sum.splits)

theorem fetchVideoInfo_never_rejects_witness:
  "fetchVideoInfo (\<lambda>p. ApiRejected NonError) (\<lambda>s. None) [] = Inr fallback
   \<and> fetchVideoInfo (\<lambda>p. ApiResolved (Some (utf16 '' {oops ''))) (\<lambda>s. None) [] = Inr fallback"
  using fetchVideoInfo_never_rejects [of "\<lambda>p. ApiRejected NonError" "\<lambda>s. None" "[]"]
    fetchVideoInfo_never_rejects [of "\<lambda>p. ApiResolved (Some (utf16 '' {oops ''))" "\<lambda>s. None" "[]"]
  by simp

end
